theory Spec2Isabelle
  imports Main "HOL-Library.Sublist"
begin

section \<open>Data model of solver/cachemanager.go\<close>

text \<open>
  The functions of \<^verbatim>\<open>cacheManager\<close> are modelled as they run one call at a time: the
  mutexes (\<^verbatim>\<open>c.mu\<close>, \<^verbatim>\<open>k.mu\<close>) and the trace logging are left out. \<^verbatim>\<open>Save\<close>,
  \<^verbatim>\<open>ReleaseUnreferenced\<close> and the constructors of the manager are not needed below.
\<close>

text \<open>
  A Go \<^verbatim>\<open>error\<close> value. \<^verbatim>\<open>nil\<close> is \<open>None\<close> of \<open>error option\<close>; a function returning
  \<^verbatim>\<open>(value, error)\<close> returns a sum, \<open>Inl\<close> the error.
\<close>

datatype error = Err string

text \<open>
  \<^verbatim>\<open>CacheInfoLink{Input, Output, Digest, Selector}\<close>: the label of a link.
  \<^verbatim>\<open>Index\<close> is Go's \<^verbatim>\<open>int\<close>; only slice positions and caller-given output indices occur.
\<close>

record CacheInfoLink =
  Input :: int
  Output :: int
  Digest :: string
  Selector :: string

text \<open>\<^verbatim>\<open>CacheResult{ID, CreatedAt}\<close>; the time is a number.\<close>

datatype CacheResult = CacheResult (result_ID: string) (result_CreatedAt: int)

text \<open>
  \<^verbatim>\<open>*CacheKey\<close>. The fields are \<^verbatim>\<open>ID\<close>, \<^verbatim>\<open>deps\<close> (one list of (key, selector) pairs per input
  slot), \<^verbatim>\<open>digest\<close> and \<^verbatim>\<open>output\<close>; they are fixed when the key is built. \<open>addr\<close> is the
  identity of the object (its pointer): two nodes with the same \<open>addr\<close> are the same Go
  object. The mutable field \<^verbatim>\<open>ids map[*cacheManager]string\<close> is not part of the node: it
  lives in the world below, keyed by (\<open>addr\<close> of the key, address of the manager), so
  that every holder of the pointer sees the same map. The field \<^verbatim>\<open>output\<close> is \<open>output_idx\<close>
  (\<open>output\<close> is a reserved word here).
  A \<^verbatim>\<open>CacheKeyWithSelector\<close> is the pair (key, selector).
\<close>

datatype CacheKey =
  CacheKey (addr: nat) (ID: string) (deps: "(CacheKey \<times> string) list list")
           (digest: string) (output_idx: int)

type_synonym CacheKeyWithSelector = "CacheKey \<times> string"

text \<open>A \<^verbatim>\<open>Result\<close> is an artifact handle; only its identity and its release matter here.\<close>

type_synonym Result = nat

text \<open>\<^verbatim>\<open>CacheRecord{ID, cacheManager, key, CreatedAt}\<close>; the manager by its address.\<close>

datatype CacheRecord =
  CacheRecord (record_ID: string) (record_cacheManager: nat) (record_key: CacheKey)
              (record_CreatedAt: int)

text \<open>\<^verbatim>\<open>LoadedResult{Result, CacheResult, CacheKey}\<close>.\<close>

datatype LoadedResult =
  LoadedResult (loaded_Result: Result) (loaded_CacheResult: CacheResult) (loaded_CacheKey: CacheKey)

text \<open>
  The two storage collaborators are interfaces; their implementations are parameters.
  \<open>'s\<close> is the state of the storage. A query reads the state; \<^verbatim>\<open>AddLink\<close> and
  \<^verbatim>\<open>Release\<close> return the new state together with their error. A walk is given by the
  values it hands to its callback, in order, and the error it returns at the end; the
  callbacks of this file never return an error themselves, so a walk is never cut short
  by its callback. The values of a walk are those of the state at the time of the call
  (the callback of \<^verbatim>\<open>Records\<close> releases results while \<^verbatim>\<open>WalkResults\<close> runs).
\<close>

record 's CacheKeyStorage =
  Exists :: "'s \<Rightarrow> string \<Rightarrow> bool"
  WalkResults :: "'s \<Rightarrow> string \<Rightarrow> CacheResult list \<times> error option"
  Load :: "'s \<Rightarrow> string \<Rightarrow> string \<Rightarrow> error + CacheResult"
  Release :: "'s \<Rightarrow> string \<Rightarrow> 's \<times> error option"
  WalkLinks :: "'s \<Rightarrow> string \<Rightarrow> CacheInfoLink \<Rightarrow> string list \<times> error option"
  AddLink :: "'s \<Rightarrow> string \<Rightarrow> CacheInfoLink \<Rightarrow> string \<Rightarrow> 's \<times> error option"
  HasLink :: "'s \<Rightarrow> string \<Rightarrow> CacheInfoLink \<Rightarrow> string \<Rightarrow> bool"

text \<open>
  \<^verbatim>\<open>CacheResultStorage\<close>. \<^verbatim>\<open>LoadWithParents\<close> is the optional method that
  \<^verbatim>\<open>c.results.(interface{ LoadWithParents(...) })\<close> asks for: \<open>None\<close> when the storage does
  not have it. Its map from identifier to handle is a list of pairs with distinct keys.
\<close>

record 's CacheResultStorage =
  results_Exists :: "'s \<Rightarrow> string \<Rightarrow> bool"
  results_Load :: "'s \<Rightarrow> CacheResult \<Rightarrow> error + Result"
  results_LoadWithParents :: "('s \<Rightarrow> CacheResult \<Rightarrow> error + (string \<times> Result) list) option"

text \<open>\<^verbatim>\<open>cacheManager{mu, id, backend, results}\<close>; \<open>self\<close> is the address of the manager.\<close>

record 's cacheManager =
  self :: nat
  manager_id :: string
  backend :: "'s CacheKeyStorage"
  results :: "'s CacheResultStorage"

text \<open>
  What the code takes from outside and does not compute: \<open>NewID n\<close> is the value of the
  \<open>n\<close>-th call of \<^verbatim>\<open>identity.NewID()\<close>; \<open>FromBytes\<close> is the digest computed by
  \<^verbatim>\<open>cachedigest.FromBytes(_, cachedigest.TypeString)\<close>; \<open>mapOrder n\<close> decides the order in
  which the \<open>n\<close>-th \<^verbatim>\<open>range\<close> over a Go map visits its entries (Go leaves it open).
\<close>

record env =
  NewID :: "nat \<Rightarrow> string"
  FromBytes :: "string \<Rightarrow> string"
  mapOrder :: "nat \<Rightarrow> nat list"

text \<open>
  The calls made on the key/link storage, in order. A \<^verbatim>\<open>Release\<close> call is kept with the
  error it returned, which its caller in \<^verbatim>\<open>Records\<close> drops.
\<close>

datatype call =
    CallExists string
  | CallWalkResults string
  | CallLoad string string
  | CallRelease string "error option"
  | CallWalkLinks string CacheInfoLink
  | CallAddLink string CacheInfoLink string
  | CallHasLink string CacheInfoLink string

text \<open>
  Everything the functions of the file read and change: the \<^verbatim>\<open>ids\<close> maps of all keys, the
  state of the storage, how many identifiers \<^verbatim>\<open>identity.NewID\<close> has handed out, how many
  map ranges have run, how many keys \<^verbatim>\<open>newKey\<close> has allocated (the next address), the
  calls made on the key/link storage, and the handles released so far.
\<close>

record 's world =
  ids :: "nat \<times> nat \<Rightarrow> string option"
  store :: 's
  minted :: nat
  ranged :: nat
  allocated :: nat
  calls :: "call list"
  released :: "Result list"

section \<open>Primitives\<close>

text \<open>
  A \<^verbatim>\<open>range\<close> over a map whose entries are \<open>xs\<close>: some permutation of \<open>xs\<close>, chosen by the
  list of numbers \<open>ns\<close>.
\<close>

primrec pick_order :: "nat list \<Rightarrow> 'a list \<Rightarrow> 'a list" where
  "pick_order [] xs = xs"
| "pick_order (n # ns) xs =
     (if xs = [] then []
      else let i = n mod length xs in xs ! i # pick_order ns (take i xs @ drop (Suc i) xs))"

definition mapRange :: "env \<Rightarrow> 'a list \<Rightarrow> 's world \<Rightarrow> 'a list \<times> 's world" where
  "mapRange E xs w = (pick_order (mapOrder E (ranged w)) xs, w\<lparr>ranged := Suc (ranged w)\<rparr>)"

definition identity_NewID :: "env \<Rightarrow> 's world \<Rightarrow> string \<times> 's world" where
  "identity_NewID E w = (NewID E (minted w), w\<lparr>minted := Suc (minted w)\<rparr>)"

text \<open>\<^verbatim>\<open>r.Release(ctx)\<close> for each handle of a list, in order.\<close>

definition release_all :: "Result list \<Rightarrow> 's world \<Rightarrow> 's world" where
  "release_all rs w = w\<lparr>released := released w @ rs\<rparr>"

text \<open>The calls \<^verbatim>\<open>c.backend.M(...)\<close>: the method of the storage, and the call recorded.\<close>

definition backend_Exists :: "'s cacheManager \<Rightarrow> string \<Rightarrow> 's world \<Rightarrow> bool \<times> 's world" where
  "backend_Exists c i w =
     (Exists (backend c) (store w) i, w\<lparr>calls := calls w @ [CallExists i]\<rparr>)"

definition backend_WalkResults ::
  "'s cacheManager \<Rightarrow> string \<Rightarrow> 's world \<Rightarrow> (CacheResult list \<times> error option) \<times> 's world" where
  "backend_WalkResults c i w =
     (WalkResults (backend c) (store w) i, w\<lparr>calls := calls w @ [CallWalkResults i]\<rparr>)"

definition backend_Load ::
  "'s cacheManager \<Rightarrow> string \<Rightarrow> string \<Rightarrow> 's world \<Rightarrow> (error + CacheResult) \<times> 's world" where
  "backend_Load c i r w =
     (Load (backend c) (store w) i r, w\<lparr>calls := calls w @ [CallLoad i r]\<rparr>)"

definition backend_Release :: "'s cacheManager \<Rightarrow> string \<Rightarrow> 's world \<Rightarrow> error option \<times> 's world" where
  "backend_Release c r w =
     (case Release (backend c) (store w) r of
        (s', e) \<Rightarrow> (e, w\<lparr>store := s', calls := calls w @ [CallRelease r e]\<rparr>))"

definition backend_WalkLinks ::
  "'s cacheManager \<Rightarrow> string \<Rightarrow> CacheInfoLink \<Rightarrow> 's world
     \<Rightarrow> (string list \<times> error option) \<times> 's world" where
  "backend_WalkLinks c i l w =
     (WalkLinks (backend c) (store w) i l, w\<lparr>calls := calls w @ [CallWalkLinks i l]\<rparr>)"

definition backend_AddLink ::
  "'s cacheManager \<Rightarrow> string \<Rightarrow> CacheInfoLink \<Rightarrow> string \<Rightarrow> 's world \<Rightarrow> error option \<times> 's world" where
  "backend_AddLink c i l t w =
     (case AddLink (backend c) (store w) i l t of
        (s', e) \<Rightarrow> (e, w\<lparr>store := s', calls := calls w @ [CallAddLink i l t]\<rparr>))"

definition backend_HasLink ::
  "'s cacheManager \<Rightarrow> string \<Rightarrow> CacheInfoLink \<Rightarrow> string \<Rightarrow> 's world \<Rightarrow> bool \<times> 's world" where
  "backend_HasLink c i l t w =
     (HasLink (backend c) (store w) i l t, w\<lparr>calls := calls w @ [CallHasLink i l t]\<rparr>)"

section \<open>rootKey\<close>

text \<open>
  \<^verbatim>\<open>fmt.Appendf(nil, "%s@%d", dgst, output)\<close>: the digest, an at sign, the output in
  decimal. \<open>digit\<close> is used below 10 only.
\<close>

definition digit :: "nat \<Rightarrow> char" where
  "digit n = ''0123456789'' ! n"

fun decimal :: "nat \<Rightarrow> string" where
  "decimal n = (if n < 10 then [digit n] else decimal (n div 10) @ [digit (n mod 10)])"

declare decimal.simps [simp del]

definition fmt_d :: "int \<Rightarrow> string" where
  "fmt_d i = (if i < 0 then CHR ''-'' # decimal (nat (- i)) else decimal (nat i))"

text \<open>
  \<^verbatim>\<open>Digest.Encoded()\<close> of go-digest is \<^verbatim>\<open>d[d.sepIndex()+1:]\<close>, the text after the first
  colon; \<^verbatim>\<open>sepIndex\<close> panics when there is no colon. \<^verbatim>\<open>rootKey\<close> calls it only on a digest
  that starts with \<^verbatim>\<open>random:\<close>, which has one (lemma \<open>random_prefix_sepIndex\<close>), so the
  panic is not a branch of \<^verbatim>\<open>rootKey\<close>.
\<close>

definition sepIndex :: "string \<Rightarrow> nat" where
  "sepIndex d = length (takeWhile (\<lambda>ch. ch \<noteq> CHR '':'') d)"

definition Encoded :: "string \<Rightarrow> string" where
  "Encoded d = drop (Suc (sepIndex d)) d"

text \<open>
  \<^verbatim>\<open>
  func rootKey(dgst digest.Digest, output Index) digest.Digest {
      out, _ := cachedigest.FromBytes(fmt.Appendf(nil, "%s@%d", dgst, output), cachedigest.TypeString)
      if strings.HasPrefix(dgst.String(), "random:") {
          return digest.Digest("random:" + dgst.Encoded())
      }
      return out
  }
  \<close>
\<close>

definition rootKey :: "env \<Rightarrow> string \<Rightarrow> int \<Rightarrow> string" where
  "rootKey E dgst out =
     (let out' = FromBytes E (dgst @ ''@'' @ fmt_d out) in
      if prefix ''random:'' dgst then ''random:'' @ Encoded dgst else out')"

section \<open>Keys and their identifiers\<close>

text \<open>
  \<^verbatim>\<open>newKey\<close> allocates a key with an empty \<^verbatim>\<open>ids\<close> map; \<^verbatim>\<open>newKeyWithID\<close> fills in the
  fields and sets \<^verbatim>\<open>k.ids[c] = id\<close>.
\<close>

definition newKeyWithID ::
  "'s cacheManager \<Rightarrow> string \<Rightarrow> string \<Rightarrow> int \<Rightarrow> 's world \<Rightarrow> CacheKey \<times> 's world" where
  "newKeyWithID c i dgst out w =
     (let a = allocated w in
      (CacheKey a i [] dgst out,
       w\<lparr>allocated := Suc a,
         ids := (\<lambda>(a', c'). if a' = a then (if c' = self c then Some i else None)
                              else ids w (a', c'))\<rparr>))"

definition newRootKey ::
  "env \<Rightarrow> 's cacheManager \<Rightarrow> string \<Rightarrow> int \<Rightarrow> 's world \<Rightarrow> CacheKey \<times> 's world" where
  "newRootKey E c dgst out w = newKeyWithID c (rootKey E dgst out) dgst out w"

text \<open>
  \<^verbatim>\<open>
  func (c *cacheManager) getID(k *CacheKey) string {
      id, ok := k.ids[c]
      if ok { return id }
      if len(k.deps) == 0 { k.ids[c] = k.ID; return k.ID }
      id = c.getIDFromDeps(k)
      k.ids[c] = id
      return id
  }

  func (c *cacheManager) getIDFromDeps(k *CacheKey) string {
      matches := map[string]struct{}{}
      for i, deps := range k.deps {
          if i == 0 || len(matches) > 0 {
              for _, ck := range deps {
                  m2 := make(map[string]struct{})
                  if err := c.backend.WalkLinks(c.getID(ck.CacheKey.CacheKey), CacheInfoLink{...}, func(id string) error {
                      if i == 0 { matches[id] = struct{}{} } else { m2[id] = struct{}{} }
                      return nil
                  }); err != nil {
                      matches = map[string]struct{}{}
                      break
                  }
                  if i != 0 {
                      for id := range matches {
                          if _, ok := m2[id]; !ok { delete(matches, id) }
                      }
                  }
              }
          }
      }
      for k := range matches { return k }
      return identity.NewID()
  }
  \<close>
  The dependencies of a key are keys built before it, so the recursion is on the
  structure of the key. The two loops of \<^verbatim>\<open>getIDFromDeps\<close> are
  \<open>getIDFromDeps_slots\<close> (\<^verbatim>\<open>for i, deps := range k.deps\<close>) and \<open>getIDFromDeps_deps\<close>
  (\<^verbatim>\<open>for _, ck := range deps\<close>); \<open>matches\<close> is the set \<^verbatim>\<open>matches\<close> as a list. The walk's
  callback puts the identifiers into \<^verbatim>\<open>matches\<close> in slot 0 and into \<^verbatim>\<open>m2\<close> otherwise; a
  failed walk sets \<^verbatim>\<open>matches\<close> to the empty map and leaves the inner loop; after a walk of
  a later slot, every member of \<^verbatim>\<open>matches\<close> that is not in \<^verbatim>\<open>m2\<close> is deleted.
  \<^verbatim>\<open>for k := range matches { return k }\<close> returns the first entry the range visits.
\<close>

text \<open>The keys of \<^verbatim>\<open>k.deps\<close> are smaller than \<open>k\<close>: the recursions below end.\<close>

lemma deps_smaller:
  "Suc (2 * size_list (size_list (size_prod size (\<lambda>_. 0))) (deps k)) < 2 * size k"
  by (cases k) simp

function (sequential)
  getID :: "env \<Rightarrow> 's cacheManager \<Rightarrow> CacheKey \<Rightarrow> 's world \<Rightarrow> string \<times> 's world"
and getIDFromDeps :: "env \<Rightarrow> 's cacheManager \<Rightarrow> CacheKey \<Rightarrow> 's world \<Rightarrow> string \<times> 's world"
and getIDFromDeps_slots ::
  "env \<Rightarrow> 's cacheManager \<Rightarrow> int \<Rightarrow> string \<Rightarrow> nat \<Rightarrow> CacheKeyWithSelector list list
     \<Rightarrow> string list \<Rightarrow> 's world \<Rightarrow> string list \<times> 's world"
and getIDFromDeps_deps ::
  "env \<Rightarrow> 's cacheManager \<Rightarrow> int \<Rightarrow> string \<Rightarrow> nat \<Rightarrow> CacheKeyWithSelector list
     \<Rightarrow> string list \<Rightarrow> 's world \<Rightarrow> string list \<times> 's world"
where
  "getID E c k w =
     (case ids w (addr k, self c) of
        Some i \<Rightarrow> (i, w)
      | None \<Rightarrow>
          if deps k = [] then (ID k, w\<lparr>ids := (ids w)((addr k, self c) \<mapsto> ID k)\<rparr>)
          else (case getIDFromDeps E c k w of
                  (i, w') \<Rightarrow> (i, w'\<lparr>ids := (ids w')((addr k, self c) \<mapsto> i)\<rparr>)))"
| "getIDFromDeps E c k w =
     (case getIDFromDeps_slots E c (output_idx k) (digest k) 0 (deps k) [] w of
        (matches, w1) \<Rightarrow>
          (case mapRange E matches w1 of
             (m # _, w2) \<Rightarrow> (m, w2)
           | ([], w2) \<Rightarrow> identity_NewID E w2))"
| "getIDFromDeps_slots E c out dg i [] matches w = (matches, w)"
| "getIDFromDeps_slots E c out dg i (ds # rest) matches w =
     (if i = 0 \<or> matches \<noteq> [] then
        (case getIDFromDeps_deps E c out dg i ds matches w of
           (matches', w') \<Rightarrow> getIDFromDeps_slots E c out dg (Suc i) rest matches' w')
      else getIDFromDeps_slots E c out dg (Suc i) rest matches w)"
| "getIDFromDeps_deps E c out dg i [] matches w = (matches, w)"
| "getIDFromDeps_deps E c out dg i ((p, sel) # rest) matches w =
     (case getID E c p w of
        (pid, w1) \<Rightarrow>
          (case backend_WalkLinks c pid
                  \<lparr>Input = int i, Output = out, Digest = dg, Selector = sel\<rparr> w1 of
             ((found, Some e), w2) \<Rightarrow> ([], w2)
           | ((found, None), w2) \<Rightarrow>
               if i = 0
               then getIDFromDeps_deps E c out dg i rest (List.union matches found) w2
               else getIDFromDeps_deps E c out dg i rest
                      (filter (\<lambda>x. x \<in> set found) matches) w2))"
  by pat_completeness auto

termination
proof (relation "measure (\<lambda>x. case x of
      Inl (Inl (E, c, k, w)) \<Rightarrow> 2 * size k + 1
    | Inl (Inr (E, c, k, w)) \<Rightarrow> 2 * size k
    | Inr (Inl (E, c, out, dg, i, dss, m, w)) \<Rightarrow>
        2 * size_list (size_list (size_prod size (\<lambda>_. 0))) dss + 1
    | Inr (Inr (E, c, out, dg, i, ds, m, w)) \<Rightarrow>
        2 * size_list (size_prod size (\<lambda>_. 0)) ds + 1)")
qed (simp_all add: deps_smaller)

declare getID.simps [simp del]
declare getIDFromDeps.simps [simp del]

text \<open>
  What can happen to the \<^verbatim>\<open>ids\<close> maps and to the storage between two calls: a \<^verbatim>\<open>getID\<close>
  by some manager on some key, the allocation of a key by \<^verbatim>\<open>newKeyWithID\<close>, or a change
  of the storage. The functions of this file change the \<^verbatim>\<open>ids\<close> maps in no other way.
\<close>

datatype 's step =
    Resolve "'s cacheManager" CacheKey
  | Allocate "'s cacheManager" string string int
  | Storage "'s \<Rightarrow> 's"

fun run_step :: "env \<Rightarrow> 's step \<Rightarrow> 's world \<Rightarrow> 's world" where
  "run_step E (Resolve c k) w = snd (getID E c k w)"
| "run_step E (Allocate c i dgst out) w = snd (newKeyWithID c i dgst out w)"
| "run_step E (Storage f) w = w\<lparr>store := f (store w)\<rparr>"

fun run_steps :: "env \<Rightarrow> 's step list \<Rightarrow> 's world \<Rightarrow> 's world" where
  "run_steps E [] w = w"
| "run_steps E (s # ss) w = run_steps E ss (run_step E s w)"

section \<open>ensurePersistentKey\<close>

text \<open>
  \<^verbatim>\<open>
  func (c *cacheManager) ensurePersistentKey(k *CacheKey) error {
      id := c.getID(k)
      for i, deps := range k.Deps() {
          for _, ck := range deps {
              l := CacheInfoLink{Input: Index(i), Output: k.Output(), Digest: k.Digest(), Selector: ck.Selector}
              ckID := c.getID(ck.CacheKey.CacheKey)
              if !c.backend.HasLink(ckID, l, id) {
                  if err := c.ensurePersistentKey(ck.CacheKey.CacheKey); err != nil { return err }
                  if err := c.backend.AddLink(ckID, l, id); err != nil { return err }
              }
          }
      }
      return nil
  }
  \<close>
  The result is the error (\<open>None\<close> for \<^verbatim>\<open>nil\<close>) and the world after the call.
\<close>

function (sequential)
  ensurePersistentKey ::
    "env \<Rightarrow> 's cacheManager \<Rightarrow> CacheKey \<Rightarrow> 's world \<Rightarrow> error option \<times> 's world"
and ensurePersistentKey_slots ::
    "env \<Rightarrow> 's cacheManager \<Rightarrow> int \<Rightarrow> string \<Rightarrow> string \<Rightarrow> nat \<Rightarrow> CacheKeyWithSelector list list
       \<Rightarrow> 's world \<Rightarrow> error option \<times> 's world"
and ensurePersistentKey_deps ::
    "env \<Rightarrow> 's cacheManager \<Rightarrow> int \<Rightarrow> string \<Rightarrow> string \<Rightarrow> nat \<Rightarrow> CacheKeyWithSelector list
       \<Rightarrow> 's world \<Rightarrow> error option \<times> 's world"
where
  "ensurePersistentKey E c k w =
     (case getID E c k w of
        (i, w1) \<Rightarrow> ensurePersistentKey_slots E c (output_idx k) (digest k) i 0 (deps k) w1)"
| "ensurePersistentKey_slots E c out dg kid i [] w = (None, w)"
| "ensurePersistentKey_slots E c out dg kid i (ds # rest) w =
     (case ensurePersistentKey_deps E c out dg kid i ds w of
        (Some e, w') \<Rightarrow> (Some e, w')
      | (None, w') \<Rightarrow> ensurePersistentKey_slots E c out dg kid (Suc i) rest w')"
| "ensurePersistentKey_deps E c out dg kid i [] w = (None, w)"
| "ensurePersistentKey_deps E c out dg kid i ((p, sel) # rest) w =
     (case getID E c p w of
        (ckID, w1) \<Rightarrow>
          (case backend_HasLink c ckID
                  \<lparr>Input = int i, Output = out, Digest = dg, Selector = sel\<rparr> kid w1 of
             (True, w2) \<Rightarrow> ensurePersistentKey_deps E c out dg kid i rest w2
           | (False, w2) \<Rightarrow>
               (case ensurePersistentKey E c p w2 of
                  (Some e, w3) \<Rightarrow> (Some e, w3)
                | (None, w3) \<Rightarrow>
                    (case backend_AddLink c ckID
                            \<lparr>Input = int i, Output = out, Digest = dg, Selector = sel\<rparr> kid w3 of
                       (Some e, w4) \<Rightarrow> (Some e, w4)
                     | (None, w4) \<Rightarrow> ensurePersistentKey_deps E c out dg kid i rest w4))))"
  by pat_completeness auto

termination
proof (relation "measure (\<lambda>x. case x of
      Inl (E, c, k, w) \<Rightarrow> 2 * size k
    | Inr (Inl (E, c, out, dg, kid, i, dss, w)) \<Rightarrow>
        2 * size_list (size_list (size_prod size (\<lambda>_. 0))) dss + 1
    | Inr (Inr (E, c, out, dg, kid, i, ds, w)) \<Rightarrow>
        2 * size_list (size_prod size (\<lambda>_. 0)) ds + 1)")
qed (simp_all add: deps_smaller)

declare ensurePersistentKey.simps [simp del]

section \<open>Query\<close>

text \<open>
  The callback of the walk of \<^verbatim>\<open>Query\<close>, run on the identifiers the walk hands over:
  \<^verbatim>\<open>
  d.results[id] = struct{}{}
  if _, ok := allRes[id]; !ok { allRes[id] = c.newKeyWithID(id, dgst, output) }
  \<close>
  \<open>res\<close> is \<^verbatim>\<open>d.results\<close> and \<open>allRes\<close> the map \<^verbatim>\<open>allRes\<close>, as a list of entries.
\<close>

primrec Query_callback ::
  "'s cacheManager \<Rightarrow> string \<Rightarrow> int \<Rightarrow> string list \<Rightarrow> string list \<Rightarrow> (string \<times> CacheKey) list
     \<Rightarrow> 's world \<Rightarrow> string list \<times> (string \<times> CacheKey) list \<times> 's world" where
  "Query_callback c dgst out [] res allRes w = (res, allRes, w)"
| "Query_callback c dgst out (i # found) res allRes w =
     (case map_of allRes i of
        Some _ \<Rightarrow> Query_callback c dgst out found (List.insert i res) allRes w
      | None \<Rightarrow>
          (case newKeyWithID c i dgst out w of
             (k, w') \<Rightarrow>
               Query_callback c dgst out found (List.insert i res) (allRes @ [(i, k)]) w'))"

text \<open>
  The first loop, \<^verbatim>\<open>for _, d := range allDeps\<close>: one walk per dependency; a failed walk
  returns its error at once. \<open>acc\<close> holds the dependencies done, each with its
  \<^verbatim>\<open>results\<close> set.
\<close>

fun Query_walk ::
  "env \<Rightarrow> 's cacheManager \<Rightarrow> int \<Rightarrow> string \<Rightarrow> int \<Rightarrow> CacheKeyWithSelector list
     \<Rightarrow> (CacheKeyWithSelector \<times> string list) list \<Rightarrow> (string \<times> CacheKey) list \<Rightarrow> 's world
     \<Rightarrow> (error + (CacheKeyWithSelector \<times> string list) list \<times> (string \<times> CacheKey) list) \<times> 's world"
where
  "Query_walk E c inp dgst out [] acc allRes w = (Inr (acc, allRes), w)"
| "Query_walk E c inp dgst out ((k, sel) # rest) acc allRes w =
     (case getID E c k w of
        (pid, w1) \<Rightarrow>
          (case backend_WalkLinks c pid
                  \<lparr>Input = inp, Output = out, Digest = dgst, Selector = sel\<rparr> w1 of
             ((found, err), w2) \<Rightarrow>
               (case Query_callback c dgst out found [] allRes w2 of
                  (res, allRes', w3) \<Rightarrow>
                    (case err of
                       Some e \<Rightarrow> (Inl e, w3)
                     | None \<Rightarrow>
                         Query_walk E c inp dgst out rest (acc @ [((k, sel), res)]) allRes' w3))))"

text \<open>
  The second loop, for one entry \<^verbatim>\<open>(id, key)\<close> of \<^verbatim>\<open>allRes\<close>:
  \<^verbatim>\<open>
  for _, d := range allDeps {
      if _, ok := d.results[id]; !ok {
          if err := c.backend.AddLink(c.getID(d.key.CacheKey.CacheKey), CacheInfoLink{...}, c.getID(key)); err != nil {
              return nil, err
          }
      }
  }
  \<close>
\<close>

fun Query_link_deps ::
  "env \<Rightarrow> 's cacheManager \<Rightarrow> int \<Rightarrow> string \<Rightarrow> int \<Rightarrow> string \<Rightarrow> CacheKey
     \<Rightarrow> (CacheKeyWithSelector \<times> string list) list \<Rightarrow> 's world \<Rightarrow> error option \<times> 's world" where
  "Query_link_deps E c inp dgst out i key [] w = (None, w)"
| "Query_link_deps E c inp dgst out i key (((k, sel), res) # rest) w =
     (if i \<notin> set res then
        (case getID E c k w of
           (dk, w1) \<Rightarrow>
             (case getID E c key w1 of
                (kid, w2) \<Rightarrow>
                  (case backend_AddLink c dk
                          \<lparr>Input = inp, Output = out, Digest = dgst, Selector = sel\<rparr> kid w2 of
                     (Some e, w3) \<Rightarrow> (Some e, w3)
                   | (None, w3) \<Rightarrow> Query_link_deps E c inp dgst out i key rest w3)))
      else Query_link_deps E c inp dgst out i key rest w)"

text \<open>\<^verbatim>\<open>for id, key := range allRes\<close>, over the entries in the order of the range.\<close>

fun Query_link ::
  "env \<Rightarrow> 's cacheManager \<Rightarrow> int \<Rightarrow> string \<Rightarrow> int \<Rightarrow> (string \<times> CacheKey) list
     \<Rightarrow> (CacheKeyWithSelector \<times> string list) list \<Rightarrow> 's world \<Rightarrow> error option \<times> 's world" where
  "Query_link E c inp dgst out [] allDeps w = (None, w)"
| "Query_link E c inp dgst out ((i, key) # rest) allDeps w =
     (case Query_link_deps E c inp dgst out i key allDeps w of
        (Some e, w') \<Rightarrow> (Some e, w')
      | (None, w') \<Rightarrow> Query_link E c inp dgst out rest allDeps w')"

text \<open>
  \<^verbatim>\<open>Query(deps, input, dgst, output)\<close>: the two loops, then
  \<^verbatim>\<open>
  if len(deps) == 0 {
      if !c.backend.Exists(rootKey(dgst, output).String()) { return nil, nil }
      return []*CacheKey{c.newRootKey(dgst, output)}, nil
  }
  keys := make([]*CacheKey, 0, len(deps))
  for _, k := range allRes { keys = append(keys, k) }
  return keys, nil
  \<close>
  The logging and the lock of the manager are left out.
\<close>

definition Query ::
  "env \<Rightarrow> 's cacheManager \<Rightarrow> CacheKeyWithSelector list \<Rightarrow> int \<Rightarrow> string \<Rightarrow> int \<Rightarrow> 's world
     \<Rightarrow> (error + CacheKey list) \<times> 's world" where
  "Query E c dps inp dgst out w =
     (case Query_walk E c inp dgst out dps [] [] w of
        (Inl e, w1) \<Rightarrow> (Inl e, w1)
      | (Inr (allDeps, allRes), w1) \<Rightarrow>
          (case mapRange E allRes w1 of
             (entries, w2) \<Rightarrow>
               (case Query_link E c inp dgst out entries allDeps w2 of
                  (Some e, w3) \<Rightarrow> (Inl e, w3)
                | (None, w3) \<Rightarrow>
                    if dps = [] then
                      (case backend_Exists c (rootKey E dgst out) w3 of
                         (False, w4) \<Rightarrow> (Inr [], w4)
                       | (True, w4) \<Rightarrow>
                           (case newRootKey E c dgst out w4 of (k, w5) \<Rightarrow> (Inr [k], w5)))
                    else
                      (case mapRange E allRes w3 of
                         (entries', w4) \<Rightarrow> (Inr (map snd entries'), w4)))))"

section \<open>Records\<close>

text \<open>
  The callback of the walk of \<^verbatim>\<open>Records\<close>:
  \<^verbatim>\<open>
  if c.results.Exists(ctx, r.ID) {
      outs = append(outs, &CacheRecord{ID: r.ID, cacheManager: c, key: ck, CreatedAt: r.CreatedAt})
  } else {
      c.backend.Release(r.ID)
  }
  return nil
  \<close>
  The error of \<^verbatim>\<open>Release\<close> is dropped.
\<close>

primrec Records_callback ::
  "'s cacheManager \<Rightarrow> CacheKey \<Rightarrow> CacheResult list \<Rightarrow> CacheRecord list \<Rightarrow> 's world
     \<Rightarrow> CacheRecord list \<times> 's world" where
  "Records_callback c ck [] outs w = (outs, w)"
| "Records_callback c ck (r # rs) outs w =
     (if results_Exists (results c) (store w) (result_ID r)
      then Records_callback c ck rs
             (outs @ [CacheRecord (result_ID r) (self c) ck (result_CreatedAt r)]) w
      else (case backend_Release c (result_ID r) w of
              (_, w') \<Rightarrow> Records_callback c ck rs outs w'))"

definition Records ::
  "env \<Rightarrow> 's cacheManager \<Rightarrow> CacheKey \<Rightarrow> 's world \<Rightarrow> (error + CacheRecord list) \<times> 's world" where
  "Records E c ck w =
     (case getID E c ck w of
        (i, w1) \<Rightarrow>
          (case backend_WalkResults c i w1 of
             ((crs, err), w2) \<Rightarrow>
               (case Records_callback c ck crs [] w2 of
                  (outs, w3) \<Rightarrow>
                    (case err of Some e \<Rightarrow> (Inl e, w3) | None \<Rightarrow> (Inr outs, w3)))))"

section \<open>Load, filterResults and LoadWithParents\<close>

text \<open>
  \<^verbatim>\<open>Load\<close> of the manager (\<open>Load_record\<close>, \<open>Load\<close> being the method of the storage):
  \<^verbatim>\<open>
  res, err := c.backend.Load(c.getID(rec.key), rec.ID)
  if err != nil { return nil, err }
  return c.results.Load(ctx, res)
  \<close>
\<close>

definition Load_record ::
  "env \<Rightarrow> 's cacheManager \<Rightarrow> CacheRecord \<Rightarrow> 's world \<Rightarrow> (error + Result) \<times> 's world" where
  "Load_record E c rec w =
     (case getID E c (record_key rec) w of
        (i, w1) \<Rightarrow>
          (case backend_Load c i (record_ID rec) w1 of
             (Inl e, w2) \<Rightarrow> (Inl e, w2)
           | (Inr res, w2) \<Rightarrow> (results_Load (results c) (store w2) res, w2)))"

text \<open>
  The callback of the walk of \<^verbatim>\<open>filterResults\<close>, on the results the walk hands over; \<open>m\<close>
  is the map from identifier to handle:
  \<^verbatim>\<open>
  res, ok := m[id]
  if ok {
      results = append(results, LoadedResult{Result: res, CacheKey: ck, CacheResult: cr})
      delete(m, id)
  }
  return nil
  \<close>
\<close>

primrec filterResults_callback ::
  "string \<Rightarrow> CacheKey \<Rightarrow> CacheResult list \<Rightarrow> LoadedResult list \<Rightarrow> (string \<times> Result) list
     \<Rightarrow> LoadedResult list \<times> (string \<times> Result) list" where
  "filterResults_callback i ck [] rs m = (rs, m)"
| "filterResults_callback i ck (cr # crs) rs m =
     (case map_of m i of
        Some res \<Rightarrow>
          filterResults_callback i ck crs (rs @ [LoadedResult res cr ck])
            (filter (\<lambda>x. fst x \<noteq> i) m)
      | None \<Rightarrow> filterResults_callback i ck crs rs m)"

text \<open>
  \<^verbatim>\<open>
  func (c *cacheManager) filterResults(m map[string]Result, ck *CacheKey, visited map[string]struct{}) (results []LoadedResult, err error) {
      id := c.getID(ck)
      if _, ok := visited[id]; ok { return nil, nil }
      visited[id] = struct{}{}
      if err := c.backend.WalkResults(id, func(cr CacheResult) error { ... }); err != nil {
          for _, r := range results { r.Result.Release(context.TODO()) }
      }
      for _, keys := range ck.Deps() {
          for _, key := range keys {
              res, err := c.filterResults(m, key.CacheKey.CacheKey, visited)
              if err != nil {
                  for _, r := range results { r.Result.Release(context.TODO()) }
                  return nil, err
              }
              results = append(results, res...)
          }
      }
      return
  }
  \<close>
  The function returns the pair (\<^verbatim>\<open>results\<close>, \<^verbatim>\<open>err\<close>); the maps \<^verbatim>\<open>m\<close> and \<^verbatim>\<open>visited\<close> are
  changed in place, so they are returned too. The \<^verbatim>\<open>err\<close> of the first \<^verbatim>\<open>if\<close> and the
  \<^verbatim>\<open>err\<close> inside the loop are variables of their own blocks: the named result \<^verbatim>\<open>err\<close> is
  never assigned, and the last \<^verbatim>\<open>return\<close> returns it as it is, \<^verbatim>\<open>nil\<close>. After a failed
  walk the function releases the results and goes on with them.
\<close>

function (sequential)
  filterResults ::
    "env \<Rightarrow> 's cacheManager \<Rightarrow> CacheKey \<Rightarrow> (string \<times> Result) list \<Rightarrow> string list \<Rightarrow> 's world
       \<Rightarrow> (LoadedResult list \<times> error option) \<times> (string \<times> Result) list \<times> string list \<times> 's world"
and filterResults_slots ::
    "env \<Rightarrow> 's cacheManager \<Rightarrow> CacheKeyWithSelector list list \<Rightarrow> LoadedResult list
       \<Rightarrow> (string \<times> Result) list \<Rightarrow> string list \<Rightarrow> 's world
       \<Rightarrow> (LoadedResult list \<times> error option) \<times> (string \<times> Result) list \<times> string list \<times> 's world"
and filterResults_keys ::
    "env \<Rightarrow> 's cacheManager \<Rightarrow> CacheKeyWithSelector list \<Rightarrow> LoadedResult list
       \<Rightarrow> (string \<times> Result) list \<Rightarrow> string list \<Rightarrow> 's world
       \<Rightarrow> (LoadedResult list \<times> error option) \<times> (string \<times> Result) list \<times> string list \<times> 's world"
where
  "filterResults E c ck m visited w =
     (case getID E c ck w of
        (i, w1) \<Rightarrow>
          if i \<in> set visited then (([], None), m, visited, w1)
          else
            (case backend_WalkResults c i w1 of
               ((crs, werr), w2) \<Rightarrow>
                 (case filterResults_callback i ck crs [] m of
                    (rs, m') \<Rightarrow>
                      filterResults_slots E c (deps ck) rs m' (i # visited)
                        (if werr \<noteq> None then release_all (map loaded_Result rs) w2 else w2))))"
| "filterResults_slots E c [] rs m visited w = ((rs, None), m, visited, w)"
| "filterResults_slots E c (keys # rest) rs m visited w =
     (case filterResults_keys E c keys rs m visited w of
        ((rs', Some e), m', visited', w') \<Rightarrow> (([], Some e), m', visited', w')
      | ((rs', None), m', visited', w') \<Rightarrow> filterResults_slots E c rest rs' m' visited' w')"
| "filterResults_keys E c [] rs m visited w = ((rs, None), m, visited, w)"
| "filterResults_keys E c ((k, sel) # rest) rs m visited w =
     (case filterResults E c k m visited w of
        ((res, Some e), m', visited', w') \<Rightarrow>
          (([], Some e), m', visited', release_all (map loaded_Result rs) w')
      | ((res, None), m', visited', w') \<Rightarrow>
          filterResults_keys E c rest (rs @ res) m' visited' w')"
  by pat_completeness auto

termination
proof (relation "measure (\<lambda>x. case x of
      Inl (E, c, k, m, v, w) \<Rightarrow> 2 * size k
    | Inr (Inl (E, c, dss, rs, m, v, w)) \<Rightarrow>
        2 * size_list (size_list (size_prod size (\<lambda>_. 0))) dss + 1
    | Inr (Inr (E, c, ds, rs, m, v, w)) \<Rightarrow>
        2 * size_list (size_prod size (\<lambda>_. 0)) ds + 1)")
qed (simp_all add: deps_smaller)

declare filterResults.simps [simp del]

text \<open>
  \<^verbatim>\<open>
  lwp, ok := c.results.(interface{ LoadWithParents(context.Context, CacheResult) (map[string]Result, error) })
  if !ok {
      res, err := c.Load(ctx, rec)
      if err != nil { return nil, err }
      return []LoadedResult{{Result: res, CacheKey: rec.key, CacheResult: CacheResult{ID: c.getID(rec.key), CreatedAt: rec.CreatedAt}}}, nil
  }
  cr, err := c.backend.Load(c.getID(rec.key), rec.ID)
  if err != nil { return nil, err }
  m, err := lwp.LoadWithParents(ctx, cr)
  if err != nil { return nil, err }
  results, err := c.filterResults(m, rec.key, map[string]struct{}{})
  if err != nil {
      for _, r := range m { r.Release(context.TODO()) }
  }
  for _, r := range m { r.Release(context.TODO()) }
  return results, nil
  \<close>
\<close>

definition LoadWithParents ::
  "env \<Rightarrow> 's cacheManager \<Rightarrow> CacheRecord \<Rightarrow> 's world \<Rightarrow> (error + LoadedResult list) \<times> 's world" where
  "LoadWithParents E c rec w =
     (case results_LoadWithParents (results c) of
        None \<Rightarrow>
          (case Load_record E c rec w of
             (Inl e, w1) \<Rightarrow> (Inl e, w1)
           | (Inr res, w1) \<Rightarrow>
               (case getID E c (record_key rec) w1 of
                  (i, w2) \<Rightarrow>
                    (Inr [LoadedResult res (CacheResult i (record_CreatedAt rec)) (record_key rec)],
                     w2)))
      | Some lwp \<Rightarrow>
          (case getID E c (record_key rec) w of
             (i, w1) \<Rightarrow>
               (case backend_Load c i (record_ID rec) w1 of
                  (Inl e, w2) \<Rightarrow> (Inl e, w2)
                | (Inr cr, w2) \<Rightarrow>
                    (case lwp (store w2) cr of
                       Inl e \<Rightarrow> (Inl e, w2)
                     | Inr m \<Rightarrow>
                         (case filterResults E c (record_key rec) m [] w2 of
                            ((rs, err), m', visited, w3) \<Rightarrow>
                              (let w4 = (if err \<noteq> None
                                         then (case mapRange E m' w3 of
                                                 (es, w') \<Rightarrow> release_all (map snd es) w')
                                         else w3)
                               in (case mapRange E m' w4 of
                                     (es, w5) \<Rightarrow> (Inr rs, release_all (map snd es) w5))))))))"

section \<open>A storage in memory, for the instances\<close>

text \<open>
  A storage that keeps links, result associations and artifacts in lists, and that never
  fails. It stands for the collaborators wherever a theorem below is applied to a
  concrete manager; the theorems themselves hold for every storage.
\<close>

record mem =
  mem_links :: "(string \<times> CacheInfoLink \<times> string) list"
  mem_results :: "(string \<times> CacheResult) list"
  mem_blobs :: "(string \<times> Result) list"

definition mem_backend :: "mem CacheKeyStorage" where
  "mem_backend =
     \<lparr>Exists = (\<lambda>s i. (\<exists>x \<in> set (mem_links s). fst x = i) \<or> (\<exists>x \<in> set (mem_results s). fst x = i)),
      WalkResults = (\<lambda>s i. (map snd (filter (\<lambda>x. fst x = i) (mem_results s)), None)),
      Load = (\<lambda>s i r. case find (\<lambda>x. fst x = i \<and> result_ID (snd x) = r) (mem_results s) of
                         Some x \<Rightarrow> Inr (snd x) | None \<Rightarrow> Inl (Err ''not found'')),
      Release = (\<lambda>s r. (s\<lparr>mem_results := filter (\<lambda>x. result_ID (snd x) \<noteq> r) (mem_results s)\<rparr>, None)),
      WalkLinks = (\<lambda>s i l. (map (\<lambda>x. snd (snd x)) (filter (\<lambda>x. fst x = i \<and> fst (snd x) = l) (mem_links s)), None)),
      AddLink = (\<lambda>s i l t. (if (i, l, t) \<in> set (mem_links s) then s
                              else s\<lparr>mem_links := mem_links s @ [(i, l, t)]\<rparr>, None)),
      HasLink = (\<lambda>s i l t. (i, l, t) \<in> set (mem_links s))\<rparr>"

definition mem_results_storage :: "mem CacheResultStorage" where
  "mem_results_storage =
     \<lparr>results_Exists = (\<lambda>s r. r \<in> fst ` set (mem_blobs s)),
      results_Load = (\<lambda>s cr. case map_of (mem_blobs s) (result_ID cr) of
                        Some h \<Rightarrow> Inr h | None \<Rightarrow> Inl (Err ''not found'')),
      results_LoadWithParents = None\<rparr>"

definition mem_manager :: "mem cacheManager" where
  "mem_manager = \<lparr>self = 0, manager_id = ''m0'', backend = mem_backend, results = mem_results_storage\<rparr>"

definition env0 :: env where
  "env0 = \<lparr>NewID = (\<lambda>n. ''id'' @ decimal n), FromBytes = (\<lambda>s. ''sha256:'' @ s), mapOrder = (\<lambda>n. [])\<rparr>"

definition world0 :: "mem \<Rightarrow> mem world" where
  "world0 s = \<lparr>ids = (\<lambda>x. None), store = s, minted = 0, ranged = 0, allocated = 100, calls = [], released = []\<rparr>"

definition mem_empty :: mem where
  "mem_empty = \<lparr>mem_links = [], mem_results = [], mem_blobs = []\<rparr>"

definition key_a :: CacheKey where "key_a = CacheKey 1 ''a'' [] ''sha256:opA'' 0"
definition key_b :: CacheKey where "key_b = CacheKey 2 ''b'' [] ''sha256:opB'' 0"
definition key_c :: CacheKey where
  "key_c = CacheKey 3 '''' [[(key_a, ''s1'')], [(key_b, ''s2'')]] ''sha256:opC'' 0"

text \<open>
  A key with two parents in its second slot, a storage where \<open>a\<close> and \<open>b\<close> link to \<open>X\<close>, and
  a manager whose storage fails the walk from \<open>b\<close> after handing over \<open>X\<close>.
\<close>

definition key_b2 :: CacheKey where "key_b2 = CacheKey 4 ''b2'' [] ''sha256:opB'' 0"
definition key_d :: CacheKey where
  "key_d = CacheKey 5 '''' [[(key_a, ''s1'')], [(key_b, ''s2''), (key_b2, ''s2'')]] ''sha256:opC'' 0"

definition mem_c :: mem where
  "mem_c = \<lparr>mem_links =
       [(''a'', \<lparr>Input = 0, Output = 0, Digest = ''sha256:opC'', Selector = ''s1''\<rparr>, ''X''),
        (''b'', \<lparr>Input = 1, Output = 0, Digest = ''sha256:opC'', Selector = ''s2''\<rparr>, ''X'')],
     mem_results = [], mem_blobs = []\<rparr>"

text \<open>A storage where \<open>a\<close>, \<open>b\<close> and \<open>b2\<close> all link to \<open>X\<close>.\<close>

definition mem_d :: mem where
  "mem_d = \<lparr>mem_links =
       [(''a'', \<lparr>Input = 0, Output = 0, Digest = ''sha256:opC'', Selector = ''s1''\<rparr>, ''X''),
        (''b'', \<lparr>Input = 1, Output = 0, Digest = ''sha256:opC'', Selector = ''s2''\<rparr>, ''X''),
        (''b2'', \<lparr>Input = 1, Output = 0, Digest = ''sha256:opC'', Selector = ''s2''\<rparr>, ''X'')],
     mem_results = [], mem_blobs = []\<rparr>"

definition flaky_manager :: "mem cacheManager" where
  "flaky_manager = mem_manager\<lparr>backend := mem_backend
     \<lparr>WalkLinks := (\<lambda>s i l. if i = ''b'' then ([''X''], Some (Err ''io''))
                              else WalkLinks mem_backend s i l)\<rparr>\<rparr>"

text \<open>A storage with one result under the root key of \<^verbatim>\<open>(sha256:opA, 0)\<close>.\<close>

definition mem_root :: mem where
  "mem_root = \<lparr>mem_links = [],
     mem_results = [(''sha256:sha256:opA@0'', CacheResult ''r1'' 5)],
     mem_blobs = [(''r1'', 11)]\<rparr>"

text \<open>
  A storage where the key \<open>a\<close> has two results, of which only \<open>r2\<close> has its artifact; a
  manager whose storage fails every \<^verbatim>\<open>Release\<close> and drops nothing; a result storage with
  \<^verbatim>\<open>LoadWithParents\<close>, which returns the handle 7 for the identifier \<open>a\<close>; managers whose
  \<^verbatim>\<open>WalkResults\<close> hands over the first \<open>n\<close> results and then returns an error; and the
  record of \<open>r1\<close> under the key \<open>a\<close>.
\<close>

definition mem_stale :: mem where
  "mem_stale = \<lparr>mem_links = [],
     mem_results = [(''a'', CacheResult ''r1'' 5), (''a'', CacheResult ''r2'' 6)],
     mem_blobs = [(''r2'', 12)]\<rparr>"

definition stuck_manager :: "mem cacheManager" where
  "stuck_manager = mem_manager\<lparr>backend := mem_backend
     \<lparr>Release := (\<lambda>s r. (s, Some (Err ''locked'')))\<rparr>\<rparr>"

text \<open>A manager whose storage fails the \<^verbatim>\<open>Release\<close> of the result \<open>r9\<close> and of no other.\<close>

definition picky_manager :: "mem cacheManager" where
  "picky_manager = mem_manager\<lparr>backend := mem_backend
     \<lparr>Release := (\<lambda>s r. if r = ''r9'' then (s, Some (Err ''locked''))
                          else Release mem_backend s r)\<rparr>\<rparr>"

definition lwp_results :: "mem CacheResultStorage" where
  "lwp_results = mem_results_storage
     \<lparr>results_LoadWithParents := Some (\<lambda>s cr. Inr [(''a'', 7)])\<rparr>"

definition failing_manager :: "nat \<Rightarrow> mem cacheManager" where
  "failing_manager n = mem_manager
     \<lparr>backend := mem_backend
        \<lparr>WalkResults := (\<lambda>s i. (take n (fst (WalkResults mem_backend s i)), Some (Err ''io'')))\<rparr>,
      results := lwp_results\<rparr>"

definition rec_a :: CacheRecord where
  "rec_a = CacheRecord ''r1'' 0 key_a 5"

text \<open>
  A key without dependencies whose \<^verbatim>\<open>ids\<close> map is not empty: the fields of the key \<open>c\<close>
  without its dependencies, at an address of its own, in a world where \<open>c\<close> has been
  resolved and the \<^verbatim>\<open>ids\<close> map of the new key holds what the map of \<open>c\<close> holds.
\<close>

definition key_copy :: CacheKey where
  "key_copy = CacheKey 6 '''' [] ''sha256:opC'' 0"

definition world_copy :: "mem world" where
  "world_copy =
     (let w = snd (getID env0 mem_manager key_c (world0 mem_empty)) in
      w\<lparr>ids := (\<lambda>(a, m). if a = addr key_copy then ids w (addr key_c, m) else ids w (a, m))\<rparr>)"

section \<open>Predicates used in the statements\<close>

text \<open>
  \<open>resolved_more w w'\<close>: from \<open>w\<close> to \<open>w'\<close> the storage, the allocated keys and the released
  handles are the same, every entry of an \<^verbatim>\<open>ids\<close> map of \<open>w\<close> is still there, unchanged,
  and the only calls made on the storage are \<^verbatim>\<open>WalkLinks\<close> calls.
\<close>

fun is_WalkLinks :: "call \<Rightarrow> bool" where
  "is_WalkLinks (CallWalkLinks _ _) = True"
| "is_WalkLinks _ = False"

definition resolved_more :: "'s world \<Rightarrow> 's world \<Rightarrow> bool" where
  "resolved_more w w' \<longleftrightarrow>
     store w' = store w \<and> allocated w' = allocated w \<and> released w' = released w \<and>
     minted w \<le> minted w' \<and> (\<forall>x v. ids w x = Some v \<longrightarrow> ids w' x = Some v) \<and>
     (\<exists>cs. calls w' = calls w @ cs \<and> list_all is_WalkLinks cs)"

text \<open>
  \<open>root_cache_ok\<close>: the \<^verbatim>\<open>ids\<close> map of the key holds, for the manager, no identifier or the
  \<^verbatim>\<open>ID\<close> field of the key.
\<close>

definition root_cache_ok :: "'s cacheManager \<Rightarrow> CacheKey \<Rightarrow> 's world \<Rightarrow> bool" where
  "root_cache_ok c k w \<longleftrightarrow> (\<forall>v. ids w (addr k, self c) = Some v \<longrightarrow> v = ID k)"

text \<open>
  For the key being derived, with output \<open>out\<close> and digest \<open>dg\<close>: \<open>reached\<close> is the set of
  identifiers the walk from a parent of slot \<open>j\<close> hands over, and \<open>walk_failed\<close> says that
  this walk returns an error. The parent is taken by the identifier it has in the \<^verbatim>\<open>ids\<close>
  maps \<open>idm\<close> (those after the derivation, when the parents have been resolved); \<open>s\<close> is
  the state of the storage. A parent without an identifier has been asked nothing.
\<close>

definition reached ::
  "'s cacheManager \<Rightarrow> int \<Rightarrow> string \<Rightarrow> 's \<Rightarrow> (nat \<times> nat \<Rightarrow> string option) \<Rightarrow> nat
     \<Rightarrow> CacheKeyWithSelector \<Rightarrow> string set" where
  "reached c out dg s idm j ps =
     (case idm (addr (fst ps), self c) of
        None \<Rightarrow> {}
      | Some pid \<Rightarrow>
          set (fst (WalkLinks (backend c) s pid
                      \<lparr>Input = int j, Output = out, Digest = dg, Selector = snd ps\<rparr>)))"

definition walk_failed ::
  "'s cacheManager \<Rightarrow> int \<Rightarrow> string \<Rightarrow> 's \<Rightarrow> (nat \<times> nat \<Rightarrow> string option) \<Rightarrow> nat
     \<Rightarrow> CacheKeyWithSelector \<Rightarrow> bool" where
  "walk_failed c out dg s idm j ps =
     (case idm (addr (fst ps), self c) of
        None \<Rightarrow> False
      | Some pid \<Rightarrow>
          snd (WalkLinks (backend c) s pid
                 \<lparr>Input = int j, Output = out, Digest = dg, Selector = snd ps\<rparr>) \<noteq> None)"

text \<open>
  The identifiers that the loops of \<^verbatim>\<open>getIDFromDeps\<close> keep when no walk fails: those handed
  over by some parent of slot 0 and by every parent of every later slot.
\<close>

definition survivors :: "'s cacheManager \<Rightarrow> CacheKey \<Rightarrow> 's world \<Rightarrow> 's world \<Rightarrow> string set" where
  "survivors c k w w' =
     {x. (\<exists>ps \<in> set (deps k ! 0).
            x \<in> reached c (output_idx k) (digest k) (store w) (ids w') 0 ps) \<and>
         (\<forall>j. 0 < j \<and> j < length (deps k) \<longrightarrow>
            (\<forall>ps \<in> set (deps k ! j).
               x \<in> reached c (output_idx k) (digest k) (store w) (ids w') j ps))}"

text \<open>
  The set of claim C1, in its words: an identifier survives if and only if at least one
  parent in every slot links to it.
\<close>

definition claimed_survivors :: "'s cacheManager \<Rightarrow> CacheKey \<Rightarrow> 's world \<Rightarrow> 's world \<Rightarrow> string set" where
  "claimed_survivors c k w w' =
     {x. \<forall>j < length (deps k). \<exists>ps \<in> set (deps k ! j).
            x \<in> reached c (output_idx k) (digest k) (store w) (ids w') j ps}"

text \<open>
  For \<^verbatim>\<open>ensurePersistentKey\<close>. \<open>has_link\<close>: the key and the parent have identifiers in the
  \<^verbatim>\<open>ids\<close> maps \<open>idm\<close>, and the storage has the link from the parent to the key under the
  label of slot \<open>j\<close>. \<open>fully_linked\<close>: this holds for every parent of every slot of the
  key. \<open>linkstore_ok\<close> is what the storage owes its callers: after an \<^verbatim>\<open>AddLink\<close> that
  returns no error the link is there, and an \<^verbatim>\<open>AddLink\<close> removes no link. \<open>grows\<close>: from
  \<open>w\<close> to \<open>w'\<close> no \<^verbatim>\<open>ids\<close> entry and no link is lost.
\<close>

fun is_HasLink :: "call \<Rightarrow> bool" where
  "is_HasLink (CallHasLink _ _ _) = True"
| "is_HasLink _ = False"

definition has_link ::
  "'s cacheManager \<Rightarrow> CacheKey \<Rightarrow> 's \<Rightarrow> (nat \<times> nat \<Rightarrow> string option) \<Rightarrow> nat
     \<Rightarrow> CacheKeyWithSelector \<Rightarrow> bool" where
  "has_link c k s idm j ps =
     (case idm (addr k, self c) of
        None \<Rightarrow> False
      | Some kid \<Rightarrow>
          (case idm (addr (fst ps), self c) of
             None \<Rightarrow> False
           | Some pid \<Rightarrow>
               HasLink (backend c) s pid
                 \<lparr>Input = int j, Output = output_idx k, Digest = digest k, Selector = snd ps\<rparr> kid))"

definition fully_linked ::
  "'s cacheManager \<Rightarrow> CacheKey \<Rightarrow> 's \<Rightarrow> (nat \<times> nat \<Rightarrow> string option) \<Rightarrow> bool" where
  "fully_linked c k s idm \<longleftrightarrow>
     idm (addr k, self c) \<noteq> None \<and>
     (\<forall>j < length (deps k). \<forall>ps \<in> set (deps k ! j). has_link c k s idm j ps)"

definition linkstore_ok :: "'s CacheKeyStorage \<Rightarrow> bool" where
  "linkstore_ok B \<longleftrightarrow>
     (\<forall>s p l t s' e. AddLink B s p l t = (s', e) \<longrightarrow>
        (e = None \<longrightarrow> HasLink B s' p l t) \<and>
        (\<forall>p' l' t'. HasLink B s p' l' t' \<longrightarrow> HasLink B s' p' l' t'))"

definition grows :: "'s CacheKeyStorage \<Rightarrow> 's world \<Rightarrow> 's world \<Rightarrow> bool" where
  "grows B w w' \<longleftrightarrow>
     (\<forall>x v. ids w x = Some v \<longrightarrow> ids w' x = Some v) \<and>
     (\<forall>p l t. HasLink B (store w) p l t \<longrightarrow> HasLink B (store w') p l t)"

text \<open>
  For \<^verbatim>\<open>Query\<close>. \<open>discovered\<close>: the identifiers the walk from the dependency \<open>d\<close> hands
  over, under the label (input, output, digest, selector of \<open>d\<close>); \<open>linked_from\<close>: the
  storage has the link from \<open>d\<close> to \<open>x\<close> under that label; \<open>link_added\<close>: the calls \<open>cs\<close>
  hold an \<^verbatim>\<open>AddLink\<close> of that link; \<open>new_calls\<close>: the calls made from \<open>w\<close> to \<open>w'\<close>. The
  dependency is taken by its identifier in the \<^verbatim>\<open>ids\<close> maps \<open>idm\<close>. \<open>walk_sound\<close> is owed by
  the storage: a walk hands over only identifiers that are linked.
\<close>

definition discovered ::
  "'s cacheManager \<Rightarrow> int \<Rightarrow> string \<Rightarrow> int \<Rightarrow> 's \<Rightarrow> (nat \<times> nat \<Rightarrow> string option)
     \<Rightarrow> CacheKeyWithSelector \<Rightarrow> string set" where
  "discovered c inp dgst out s idm d =
     (case idm (addr (fst d), self c) of
        None \<Rightarrow> {}
      | Some pid \<Rightarrow>
          set (fst (WalkLinks (backend c) s pid
                      \<lparr>Input = inp, Output = out, Digest = dgst, Selector = snd d\<rparr>)))"

definition linked_from ::
  "'s cacheManager \<Rightarrow> int \<Rightarrow> string \<Rightarrow> int \<Rightarrow> 's \<Rightarrow> (nat \<times> nat \<Rightarrow> string option)
     \<Rightarrow> CacheKeyWithSelector \<Rightarrow> string \<Rightarrow> bool" where
  "linked_from c inp dgst out s idm d x =
     (case idm (addr (fst d), self c) of
        None \<Rightarrow> False
      | Some pid \<Rightarrow>
          HasLink (backend c) s pid
            \<lparr>Input = inp, Output = out, Digest = dgst, Selector = snd d\<rparr> x)"

definition new_calls :: "'s world \<Rightarrow> 's world \<Rightarrow> call list" where
  "new_calls w w' = drop (length (calls w)) (calls w')"

definition link_added ::
  "'s cacheManager \<Rightarrow> int \<Rightarrow> string \<Rightarrow> int \<Rightarrow> call list \<Rightarrow> (nat \<times> nat \<Rightarrow> string option)
     \<Rightarrow> CacheKeyWithSelector \<Rightarrow> string \<Rightarrow> bool" where
  "link_added c inp dgst out cs idm d x =
     (case idm (addr (fst d), self c) of
        None \<Rightarrow> False
      | Some pid \<Rightarrow>
          CallAddLink pid \<lparr>Input = inp, Output = out, Digest = dgst, Selector = snd d\<rparr> x
            \<in> set cs)"

definition walk_sound :: "'s CacheKeyStorage \<Rightarrow> bool" where
  "walk_sound B \<longleftrightarrow> (\<forall>s p l x. x \<in> set (fst (WalkLinks B s p l)) \<longrightarrow> HasLink B s p l x)"

text \<open>
  What the two loops of \<^verbatim>\<open>Query\<close> keep. \<open>preserved\<close>: the storage is the same and the
  \<^verbatim>\<open>ids\<close> entries of the keys allocated so far are kept. \<open>keys_ok\<close>: every key of \<^verbatim>\<open>allRes\<close>
  is allocated and resolves to the identifier it is stored under. \<open>deps_ok\<close>: every
  dependency walked so far is allocated and resolved, and its \<^verbatim>\<open>results\<close> set is what its
  walk hands over. \<open>linking\<close>: the \<^verbatim>\<open>ids\<close> maps are the same and no link is lost.
\<close>

definition preserved :: "'s world \<Rightarrow> 's world \<Rightarrow> bool" where
  "preserved w w' \<longleftrightarrow>
     allocated w \<le> allocated w' \<and> store w' = store w \<and> prefix (calls w) (calls w') \<and>
     (\<forall>a m v. a < allocated w \<longrightarrow> ids w (a, m) = Some v \<longrightarrow> ids w' (a, m) = Some v)"

definition keys_ok :: "'s cacheManager \<Rightarrow> (string \<times> CacheKey) list \<Rightarrow> 's world \<Rightarrow> bool" where
  "keys_ok c allRes w \<longleftrightarrow>
     (\<forall>e \<in> set allRes. addr (snd e) < allocated w \<and> ids w (addr (snd e), self c) = Some (fst e))"

definition deps_ok ::
  "'s cacheManager \<Rightarrow> int \<Rightarrow> string \<Rightarrow> int \<Rightarrow> (CacheKeyWithSelector \<times> string list) list
     \<Rightarrow> 's world \<Rightarrow> bool" where
  "deps_ok c inp dgst out allDeps w \<longleftrightarrow>
     (\<forall>e \<in> set allDeps. addr (fst (fst e)) < allocated w \<and>
        ids w (addr (fst (fst e)), self c) \<noteq> None \<and>
        set (snd e) = discovered c inp dgst out (store w) (ids w) (fst e))"

definition linking :: "'s CacheKeyStorage \<Rightarrow> 's world \<Rightarrow> 's world \<Rightarrow> bool" where
  "linking B w w' \<longleftrightarrow>
     ids w' = ids w \<and> allocated w' = allocated w \<and> prefix (calls w) (calls w') \<and>
     (\<forall>p l t. HasLink B (store w) p l t \<longrightarrow> HasLink B (store w') p l t)"

text \<open>
  For \<^verbatim>\<open>Records\<close>. \<open>present\<close>: the artifact of a result is in the result storage;
  \<open>record_of\<close>: the \<^verbatim>\<open>CacheRecord\<close> that the callback builds. \<open>release_ok\<close> is owed by the
  storage: a \<^verbatim>\<open>Release\<close> leaves the result storage alone, adds no association, and, when
  it returns no error, leaves no association with the released result.
  \<open>Release_calls\<close>: the \<^verbatim>\<open>Release\<close> calls on the results \<open>rs\<close>, in order, with the errors
  \<open>es\<close> they returned. \<open>Release_failed\<close>: the call is a \<^verbatim>\<open>Release\<close> that returned an error.
  \<open>released_gone\<close>: no identifier of the storage has an association with the result \<open>x\<close>.
\<close>

definition release_ok :: "'s CacheKeyStorage \<Rightarrow> 's CacheResultStorage \<Rightarrow> bool" where
  "release_ok B R \<longleftrightarrow>
     (\<forall>s r s' e. Release B s r = (s', e) \<longrightarrow>
        (\<forall>x. results_Exists R s' x = results_Exists R s x) \<and>
        (\<forall>i. set (fst (WalkResults B s' i)) \<subseteq> set (fst (WalkResults B s i))) \<and>
        (e = None \<longrightarrow> (\<forall>i. \<forall>cr \<in> set (fst (WalkResults B s' i)). result_ID cr \<noteq> r)))"

definition Release_calls :: "CacheResult list \<Rightarrow> error option list \<Rightarrow> call list" where
  "Release_calls rs es = map (\<lambda>(r, e). CallRelease (result_ID r) e) (zip rs es)"

fun Release_failed :: "call \<Rightarrow> bool" where
  "Release_failed (CallRelease r (Some e)) = True"
| "Release_failed _ = False"

definition released_gone :: "'s CacheKeyStorage \<Rightarrow> 's \<Rightarrow> string \<Rightarrow> bool" where
  "released_gone B s x \<longleftrightarrow> (\<forall>i. \<forall>cr \<in> set (fst (WalkResults B s i)). result_ID cr \<noteq> x)"

definition present :: "'s cacheManager \<Rightarrow> 's \<Rightarrow> CacheResult \<Rightarrow> bool" where
  "present c s r = results_Exists (results c) s (result_ID r)"

definition record_of :: "'s cacheManager \<Rightarrow> CacheKey \<Rightarrow> CacheResult \<Rightarrow> CacheRecord" where
  "record_of c ck r = CacheRecord (result_ID r) (self c) ck (result_CreatedAt r)"

section \<open>Decimal output\<close>

lemma digit_inj: "a < 10 \<Longrightarrow> b < 10 \<Longrightarrow> digit a = digit b \<Longrightarrow> a = b"
proof -
  assume a: "a < 10" and b: "b < 10" and e: "digit a = digit b"
  have d: "distinct ''0123456789''" by simp
  have "a < length ''0123456789''" "b < length ''0123456789''" using a b by simp_all
  with d e show "a = b" unfolding digit_def using nth_eq_iff_index_eq by blast
qed

lemma digit_not_minus: "a < 10 \<Longrightarrow> digit a \<noteq> CHR ''-''"
proof -
  assume "a < 10"
  then have "digit a \<in> set ''0123456789''" unfolding digit_def
    by (intro nth_mem) simp
  then show ?thesis by auto
qed

lemma decimal_small: "n < 10 \<Longrightarrow> decimal n = [digit n]"
  by (subst decimal.simps) simp

lemma decimal_big: "\<not> n < 10 \<Longrightarrow> decimal n = decimal (n div 10) @ [digit (n mod 10)]"
  by (subst decimal.simps) simp

lemma decimal_nonempty: "decimal n \<noteq> []"
  by (cases "n < 10") (simp_all add: decimal_small decimal_big)

lemma decimal_inj: "decimal n = decimal m \<Longrightarrow> n = m"
proof (induction n arbitrary: m rule: decimal.induct)
  case (1 n)
  show ?case
  proof (cases "n < 10")
    case True
    show ?thesis
    proof (cases "m < 10")
      case True
      with \<open>n < 10\<close> 1(2) show ?thesis by (simp add: decimal_small digit_inj)
    next
      case False
      with \<open>n < 10\<close> 1(2) show ?thesis
        using decimal_nonempty[of "m div 10"] by (simp add: decimal_small decimal_big)
    qed
  next
    case False
    have m: "\<not> m < 10"
    proof
      assume "m < 10"
      with False 1(2) show False
        using decimal_nonempty[of "n div 10"] by (simp add: decimal_small decimal_big)
    qed
    from False m 1(2) have "decimal (n div 10) = decimal (m div 10)" "digit (n mod 10) = digit (m mod 10)"
      by (simp_all add: decimal_big)
    then have "n div 10 = m div 10" "n mod 10 = m mod 10"
      using 1(1)[OF False] digit_inj[of "n mod 10" "m mod 10"] by simp_all
    then show ?thesis by (metis div_mult_mod_eq)
  qed
qed

lemma decimal_hd: "hd (decimal n) \<noteq> CHR ''-''"
proof (induction n rule: decimal.induct)
  case (1 n)
  show ?case
  proof (cases "n < 10")
    case True
    then show ?thesis by (simp add: decimal_small digit_not_minus)
  next
    case False
    then show ?thesis using 1 decimal_nonempty[of "n div 10"] by (simp add: decimal_big)
  qed
qed

lemma fmt_d_inj: "fmt_d a = fmt_d b \<Longrightarrow> a = b"
proof -
  assume e: "fmt_d a = fmt_d b"
  have neg: "\<And>x y. CHR ''-'' # decimal x \<noteq> decimal y"
    using decimal_hd decimal_nonempty by (metis list.sel(1))
  show "a = b"
  proof (cases "a < 0")
    case True
    then have b: "b < 0" using e neg[of "nat (- a)" "nat b"] by (auto simp: fmt_d_def split: if_splits)
    with True e have "nat (- a) = nat (- b)" by (simp add: fmt_d_def decimal_inj)
    with True b show ?thesis by simp
  next
    case False
    then have b: "\<not> b < 0" using e neg[of "nat (- b)" "nat a"] by (auto simp: fmt_d_def split: if_splits)
    with False e have "nat a = nat b" by (simp add: fmt_d_def decimal_inj)
    with False b show ?thesis by simp
  qed
qed

section \<open>What getID changes\<close>

lemma resolved_more_refl: "resolved_more w w"
  by (simp add: resolved_more_def)

lemma resolved_more_trans:
  assumes "resolved_more w w1" and "resolved_more w1 w2"
  shows "resolved_more w w2"
proof -
  from assms obtain cs1 cs2 where
    "calls w1 = calls w @ cs1" "list_all is_WalkLinks cs1"
    "calls w2 = calls w1 @ cs2" "list_all is_WalkLinks cs2"
    by (auto simp: resolved_more_def)
  then have "calls w2 = calls w @ (cs1 @ cs2) \<and> list_all is_WalkLinks (cs1 @ cs2)" by simp
  then have "\<exists>cs. calls w2 = calls w @ cs \<and> list_all is_WalkLinks cs" by blast
  with assms show ?thesis by (simp add: resolved_more_def)
qed

lemma resolved_more_WalkLinks: "backend_WalkLinks c i l w = (r, w') \<Longrightarrow> resolved_more w w'"
  by (auto simp: backend_WalkLinks_def resolved_more_def)

lemma resolved_more_mapRange: "mapRange E xs w = (ys, w') \<Longrightarrow> resolved_more w w'"
  by (auto simp: mapRange_def resolved_more_def)

lemma resolved_more_NewID: "identity_NewID E w = (i, w') \<Longrightarrow> resolved_more w w'"
  by (auto simp: identity_NewID_def resolved_more_def)

lemma resolved_more_ids:
  "resolved_more w w1 \<Longrightarrow> ids w x = None \<Longrightarrow> resolved_more w (w1\<lparr>ids := (ids w1)(x \<mapsto> v)\<rparr>)"
  by (auto simp add: resolved_more_def)

lemma getID_family_resolved_more:
  "resolved_more w (snd (getID E c k w))"
  "resolved_more w (snd (getIDFromDeps E c k w))"
  "resolved_more w (snd (getIDFromDeps_slots E c out dg i dss ms w))"
  "resolved_more w (snd (getIDFromDeps_deps E c out dg i ds ms w))"
proof (induction E c k w and E c k w and E c out dg i dss ms w and E c out dg i ds ms w
    rule: getID_getIDFromDeps_getIDFromDeps_slots_getIDFromDeps_deps.induct)
  case (1 E c k w)
  show ?case
  proof (cases "ids w (addr k, self c)")
    case (Some a)
    then show ?thesis by (simp add: getID.simps resolved_more_refl)
  next
    case None
    show ?thesis
    proof (cases "deps k = []")
      case True
      with None show ?thesis
        by (simp add: getID.simps resolved_more_ids resolved_more_refl)
    next
      case False
      obtain i w' where g: "getIDFromDeps E c k w = (i, w')" by (cases "getIDFromDeps E c k w")
      from 1[OF None False] g have "resolved_more w w'" by simp
      then have "resolved_more w (w'\<lparr>ids := (ids w')((addr k, self c) \<mapsto> i)\<rparr>)"
        using None by (rule resolved_more_ids)
      with None False g show ?thesis by (simp add: getID.simps)
    qed
  qed
next
  case (2 E c k w)
  obtain ms w1 where s: "getIDFromDeps_slots E c (output_idx k) (digest k) 0 (deps k) [] w = (ms, w1)"
    by (cases "getIDFromDeps_slots E c (output_idx k) (digest k) 0 (deps k) [] w")
  obtain es w2 where r: "mapRange E ms w1 = (es, w2)" by (cases "mapRange E ms w1")
  from 2 s have a: "resolved_more w w1" by simp
  from r have b: "resolved_more w1 w2" by (rule resolved_more_mapRange)
  show ?case
  proof (cases es)
    case Nil
    obtain i w3 where n: "identity_NewID E w2 = (i, w3)" by (cases "identity_NewID E w2")
    then have "resolved_more w2 w3" by (rule resolved_more_NewID)
    with a b have "resolved_more w w3" by (blast intro: resolved_more_trans)
    with s r Nil n show ?thesis by (simp add: getIDFromDeps.simps)
  next
    case (Cons e es')
    from a b have "resolved_more w w2" by (rule resolved_more_trans)
    with s r Cons show ?thesis by (simp add: getIDFromDeps.simps)
  qed
next
  case (3 E c out dg i matches w)
  then show ?case by (simp add: resolved_more_refl)
next
  case (4 E c out dg i ds rest matches w)
  show ?case
  proof (cases "i = 0 \<or> matches \<noteq> []")
    case True
    obtain m' w' where d: "getIDFromDeps_deps E c out dg i ds matches w = (m', w')"
      by (cases "getIDFromDeps_deps E c out dg i ds matches w")
    from 4(1)[OF True] d have a: "resolved_more w w'" by simp
    from 4(2)[OF True d[symmetric]]
    have "resolved_more w' (snd (getIDFromDeps_slots E c out dg (Suc i) rest m' w'))" .
    with a have "resolved_more w (snd (getIDFromDeps_slots E c out dg (Suc i) rest m' w'))"
      by (rule resolved_more_trans)
    with True d show ?thesis by (simp del: One_nat_def)
  next
    case False
    with 4(3) show ?thesis by simp
  qed
next
  case (5 E c out dg i matches w)
  then show ?case by (simp add: resolved_more_refl)
next
  case (6 E c out dg i p sel rest matches w)
  let ?l = "\<lparr>Input = int i, Output = out, Digest = dg, Selector = sel\<rparr>"
  obtain pid w1 where g: "getID E c p w = (pid, w1)" by (cases "getID E c p w")
  obtain found err w2 where b: "backend_WalkLinks c pid ?l w1 = ((found, err), w2)"
    by (cases "backend_WalkLinks c pid ?l w1") auto
  from 6(1) g have a: "resolved_more w w1" by simp
  from b have "resolved_more w1 w2" by (rule resolved_more_WalkLinks)
  with a have a2: "resolved_more w w2" by (rule resolved_more_trans)
  show ?case
  proof (cases err)
    case (Some e)
    with g b a2 show ?thesis by simp
  next
    case None
    show ?thesis
    proof (cases "i = 0")
      case True
      from 6(2)[OF g[symmetric] b[symmetric] refl None True]
      have "resolved_more w2
              (snd (getIDFromDeps_deps E c out dg i rest (List.union matches found) w2))" .
      with a2 have "resolved_more w
              (snd (getIDFromDeps_deps E c out dg i rest (List.union matches found) w2))"
        by (rule resolved_more_trans)
      with g b None True show ?thesis by simp
    next
      case False
      from 6(3)[OF g[symmetric] b[symmetric] refl None False]
      have "resolved_more w2
              (snd (getIDFromDeps_deps E c out dg i rest (filter (\<lambda>x. x \<in> set found) matches) w2))" .
      with a2 have "resolved_more w
              (snd (getIDFromDeps_deps E c out dg i rest (filter (\<lambda>x. x \<in> set found) matches) w2))"
        by (rule resolved_more_trans)
      with g b None False show ?thesis by simp
    qed
  qed
qed

lemma getID_cached: "ids w (addr k, self c) = Some i \<Longrightarrow> getID E c k w = (i, w)"
  by (simp add: getID.simps)

lemma getID_caches: "getID E c k w = (i, w') \<Longrightarrow> ids w' (addr k, self c) = Some i"
  by (auto simp: getID.simps split: option.splits if_splits prod.splits)

lemma getID_keeps: "ids w x = Some v \<Longrightarrow> ids (snd (getID E c k w)) x = Some v"
  using getID_family_resolved_more(1)[of w E c k] by (cases x) (simp add: resolved_more_def)

lemma step_keeps:
  assumes "a < allocated w" and "ids w (a, m) = Some v"
  shows "a < allocated (run_step E s w) \<and> ids (run_step E s w) (a, m) = Some v"
proof (cases s)
  case (Resolve c k)
  from getID_family_resolved_more(1)[of w E c k] assms Resolve show ?thesis
    by (simp add: resolved_more_def)
next
  case (Allocate c i dgst out)
  with assms show ?thesis by (simp add: newKeyWithID_def Let_def)
next
  case (Storage f)
  with assms show ?thesis by simp
qed

lemma steps_keeps:
  "a < allocated w \<Longrightarrow> ids w (a, m) = Some v \<Longrightarrow> ids (run_steps E ss w) (a, m) = Some v"
proof (induction ss arbitrary: w)
  case Nil
  then show ?case by simp
next
  case (Cons s ss)
  from step_keeps[OF Cons.prems, of E s] Cons.IH show ?case by simp
qed

text \<open>
  Claim C9. Once \<^verbatim>\<open>getID\<close> has returned an identifier for a key and a manager, the
  \<^verbatim>\<open>ids\<close> entry of the pair holds it. Whatever happens afterwards (\<^verbatim>\<open>getID\<close> calls by any
  managers on any keys, allocations of new keys, changes of the storage), the entry is
  the same, and \<^verbatim>\<open>getID\<close> on the pair returns it and leaves the world as it is: no
  storage call, no new identifier, no write. The key is an allocated object.
\<close>

theorem getID_cache_monotone:
  assumes "getID E c k w = (i, w')" and "addr k < allocated w"
  shows "ids w' (addr k, self c) = Some i \<and>
         (\<forall>ss. ids (run_steps E ss w') (addr k, self c) = Some i \<and>
               getID E c k (run_steps E ss w') = (i, run_steps E ss w'))"
proof -
  from assms(1) have a: "ids w' (addr k, self c) = Some i" by (rule getID_caches)
  from getID_family_resolved_more(1)[of w E c k] assms have b: "addr k < allocated w'"
    by (simp add: resolved_more_def)
  have "ids (run_steps E ss w') (addr k, self c) = Some i" for ss
    using b a by (rule steps_keeps)
  then show ?thesis using a by (simp add: getID_cached)
qed

theorem getID_cache_monotone_witness:
  "addr key_c < allocated (world0 mem_empty) \<and>
   fst (getID env0 mem_manager key_c (world0 mem_empty)) = ''id0'' \<and>
   ids (snd (getID env0 mem_manager key_c (world0 mem_empty))) (addr key_c, self mem_manager) = Some ''id0'' \<and>
   getID env0 mem_manager key_c
     (run_steps env0 [Resolve mem_manager key_a, Allocate mem_manager ''X'' ''sha256:opC'' 0,
                  Storage (\<lambda>s. mem_c), Resolve mem_manager key_c]
        (snd (getID env0 mem_manager key_c (world0 mem_empty)))) =
   (''id0'', run_steps env0 [Resolve mem_manager key_a, Allocate mem_manager ''X'' ''sha256:opC'' 0,
                  Storage (\<lambda>s. mem_c), Resolve mem_manager key_c]
        (snd (getID env0 mem_manager key_c (world0 mem_empty))))"
proof -
  have e: "fst (getID env0 mem_manager key_c (world0 mem_empty)) = ''id0''"
    by code_simp
  then have g: "getID env0 mem_manager key_c (world0 mem_empty) =
      (''id0'', snd (getID env0 mem_manager key_c (world0 mem_empty)))"
    by (metis prod.collapse)
  have a: "addr key_c < allocated (world0 mem_empty)" by (simp add: key_c_def world0_def)
  from getID_cache_monotone[OF g a] e a show ?thesis by blast
qed

section \<open>Root keys\<close>

lemma random_prefix_sepIndex: "prefix ''random:'' d \<Longrightarrow> sepIndex d = 6 \<and> d ! 6 = CHR '':''"
  by (auto simp: prefix_def sepIndex_def)

lemma random_prefix_Encoded: "prefix ''random:'' d \<Longrightarrow> ''random:'' @ Encoded d = d"
  by (auto simp: prefix_def Encoded_def sepIndex_def)

lemma rootKey_eq:
  "rootKey E dgst out =
     (if prefix ''random:'' dgst then dgst else FromBytes E (dgst @ ''@'' @ fmt_d out))"
  using random_prefix_Encoded[of dgst] by (simp add: rootKey_def)

lemma getID_root: "deps k = [] \<Longrightarrow> root_cache_ok c k w \<Longrightarrow> fst (getID E c k w) = ID k"
  by (auto simp: getID.simps root_cache_ok_def split: option.splits)

lemma newRootKey_resolves:
  "newRootKey E c dgst out w = (k, w') \<Longrightarrow>
     deps k = [] \<and> ID k = rootKey E dgst out \<and> digest k = dgst \<and> output_idx k = out \<and>
     getID E c k w' = (rootKey E dgst out, w')"
  by (auto simp: newRootKey_def newKeyWithID_def Let_def getID.simps)

lemma getID_root_iff:
  "deps k = [] \<Longrightarrow> fst (getID E c k w) = ID k \<longleftrightarrow> root_cache_ok c k w"
  by (auto simp: getID.simps root_cache_ok_def split: option.splits)

lemma getID_root_stays:
  assumes "deps k = []" and "root_cache_ok c k w" and "addr k < allocated w"
  shows "getID E c k (run_steps E ss (snd (getID E c k w))) =
           (ID k, run_steps E ss (snd (getID E c k w)))"
proof -
  obtain i w1 where g: "getID E c k w = (i, w1)" by (cases "getID E c k w")
  from getID_root[OF assms(1,2), of E] g have i: "i = ID k" by simp
  from g have e: "ids w1 (addr k, self c) = Some i" by (rule getID_caches)
  from getID_family_resolved_more(1)[of w E c k] g assms(3) have a: "addr k < allocated w1"
    by (simp add: resolved_more_def)
  from a e have "ids (run_steps E ss w1) (addr k, self c) = Some i" by (rule steps_keeps)
  then have "getID E c k (run_steps E ss w1) = (i, run_steps E ss w1)" by (rule getID_cached)
  with g i show ?thesis by simp
qed

lemma newKeyWithID_stays:
  assumes "newKeyWithID c i dgst out w = (k, w')"
  shows "deps k = [] \<and> ID k = i \<and> digest k = dgst \<and> output_idx k = out \<and>
         getID E c k (run_steps E ss w') = (i, run_steps E ss w')"
proof -
  from assms have k: "k = CacheKey (allocated w) i [] dgst out"
    and a: "addr k < allocated w'" and e: "ids w' (addr k, self c) = Some i"
    by (auto simp: newKeyWithID_def Let_def)
  from a e have "ids (run_steps E ss w') (addr k, self c) = Some i" by (rule steps_keeps)
  then have "getID E c k (run_steps E ss w') = (i, run_steps E ss w')" by (rule getID_cached)
  with k show ?thesis by simp
qed

text \<open>
  Claim C8, as stated, fails: \<^verbatim>\<open>getID\<close> looks into the \<^verbatim>\<open>ids\<close> map of the key before it
  looks at the dependencies, and returns the entry of the manager when there is one. A
  key without dependencies whose map holds another identifier for the manager resolves
  to that identifier, not to its \<^verbatim>\<open>ID\<close> field.
\<close>

theorem root_key_cached_counterexample:
  "deps key_copy = [] \<and> ID key_copy = '''' \<and>
   ids world_copy (addr key_copy, self mem_manager) = Some ''id0'' \<and>
   fst (getID env0 mem_manager key_copy world_copy) = ''id0'' \<and>
   fst (getID env0 mem_manager key_copy world_copy) \<noteq> ID key_copy"
  by code_simp

text \<open>
  Claim C8, amended. For a key without dependencies, \<^verbatim>\<open>getID\<close> returns the \<^verbatim>\<open>ID\<close> field
  exactly when the \<^verbatim>\<open>ids\<close> map of the key holds, for the manager, no identifier or that
  field (\<open>root_cache_ok\<close>). From such a call on, whatever happens (\<^verbatim>\<open>getID\<close> calls by any
  manager on any key, allocations of keys, changes of the storage), \<^verbatim>\<open>getID\<close> returns the
  \<^verbatim>\<open>ID\<close> field again and changes nothing. \<^verbatim>\<open>rootKey\<close> is the digest of \<^verbatim>\<open>dgst@output\<close>, or
  \<open>dgst\<close> itself when it starts with \<^verbatim>\<open>random:\<close>. Two such keys with the same \<^verbatim>\<open>ID\<close> resolve
  to the same identifier, whatever the objects, the managers and the worlds. A key made
  by \<^verbatim>\<open>newRootKey\<close> has no dependencies, has \<^verbatim>\<open>rootKey(dgst, output)\<close> as its \<^verbatim>\<open>ID\<close>, and
  resolves to it for its manager, at once and after whatever happens.
\<close>

theorem root_key_deterministic:
  "(deps k = [] \<longrightarrow> (fst (getID E c k w) = ID k \<longleftrightarrow> root_cache_ok c k w)) \<and>
   (deps k = [] \<and> root_cache_ok c k w \<and> addr k < allocated w \<longrightarrow>
      (\<forall>ss. getID E c k (run_steps E ss (snd (getID E c k w))) =
              (ID k, run_steps E ss (snd (getID E c k w))))) \<and>
   rootKey E dgst out =
     (if prefix ''random:'' dgst then dgst else FromBytes E (dgst @ ''@'' @ fmt_d out)) \<and>
   (deps k1 = [] \<and> deps k2 = [] \<and> ID k1 = ID k2 \<and> root_cache_ok c1 k1 w1 \<and> root_cache_ok c2 k2 w2
      \<longrightarrow> fst (getID E c1 k1 w1) = fst (getID E c2 k2 w2)) \<and>
   deps (fst (newRootKey E c1 dgst out w1)) = [] \<and>
   ID (fst (newRootKey E c1 dgst out w1)) = rootKey E dgst out \<and>
   (\<forall>ss. getID E c1 (fst (newRootKey E c1 dgst out w1))
            (run_steps E ss (snd (newRootKey E c1 dgst out w1))) =
          (rootKey E dgst out, run_steps E ss (snd (newRootKey E c1 dgst out w1))))"
proof -
  obtain k' w' where n: "newKeyWithID c1 (rootKey E dgst out) dgst out w1 = (k', w')"
    by (cases "newKeyWithID c1 (rootKey E dgst out) dgst out w1")
  then have n': "newRootKey E c1 dgst out w1 = (k', w')" by (simp add: newRootKey_def)
  have a: "deps k = [] \<longrightarrow> (fst (getID E c k w) = ID k \<longleftrightarrow> root_cache_ok c k w)"
    by (simp add: getID_root_iff)
  have b: "deps k = [] \<and> root_cache_ok c k w \<and> addr k < allocated w \<longrightarrow>
      (\<forall>ss. getID E c k (run_steps E ss (snd (getID E c k w))) =
              (ID k, run_steps E ss (snd (getID E c k w))))"
    by (simp add: getID_root_stays)
  have d: "deps k1 = [] \<and> deps k2 = [] \<and> ID k1 = ID k2 \<and> root_cache_ok c1 k1 w1 \<and> root_cache_ok c2 k2 w2
      \<longrightarrow> fst (getID E c1 k1 w1) = fst (getID E c2 k2 w2)"
    by (simp add: getID_root)
  have e: "deps (fst (newRootKey E c1 dgst out w1)) = [] \<and>
   ID (fst (newRootKey E c1 dgst out w1)) = rootKey E dgst out \<and>
   (\<forall>ss. getID E c1 (fst (newRootKey E c1 dgst out w1))
            (run_steps E ss (snd (newRootKey E c1 dgst out w1))) =
          (rootKey E dgst out, run_steps E ss (snd (newRootKey E c1 dgst out w1))))"
    using newKeyWithID_stays[OF n, of E] by (simp add: n')
  from a b d e rootKey_eq[of E dgst out] show ?thesis by blast
qed

theorem root_key_deterministic_witness:
  "deps key_a = [] \<and> root_cache_ok mem_manager key_a (world0 mem_empty) \<and>
   addr key_a < allocated (world0 mem_empty) \<and>
   fst (getID env0 mem_manager key_a (world0 mem_empty)) = ''a'' \<and>
   getID env0 mem_manager key_a
     (run_steps env0 [Resolve mem_manager key_c, Allocate mem_manager ''X'' ''sha256:opC'' 0,
                      Storage (\<lambda>s. mem_c)]
        (snd (getID env0 mem_manager key_a (world0 mem_empty)))) =
   (''a'', run_steps env0 [Resolve mem_manager key_c, Allocate mem_manager ''X'' ''sha256:opC'' 0,
                      Storage (\<lambda>s. mem_c)]
        (snd (getID env0 mem_manager key_a (world0 mem_empty)))) \<and>
   rootKey env0 ''sha256:opA'' 2 = ''sha256:sha256:opA@2'' \<and>
   rootKey env0 ''random:xyz'' 2 = ''random:xyz'' \<and>
   fst (getID env0 mem_manager key_a (world0 mem_empty)) =
     fst (getID env0 (mem_manager\<lparr>self := 1\<rparr>) (CacheKey 7 ''a'' [] ''sha256:opA'' 0) (world0 mem_empty)) \<and>
   fst (getID env0 mem_manager (fst (newRootKey env0 mem_manager ''sha256:opA'' 2 (world0 mem_empty)))
     (run_steps env0 [Resolve mem_manager key_c]
        (snd (newRootKey env0 mem_manager ''sha256:opA'' 2 (world0 mem_empty))))) =
     ''sha256:sha256:opA@2''"
proof -
  have d: "deps key_a = []" "deps (CacheKey 7 ''a'' [] ''sha256:opA'' 0) = []"
    "ID key_a = ''a''" "ID (CacheKey 7 ''a'' [] ''sha256:opA'' 0) = ''a''"
    by (simp_all add: key_a_def)
  have r: "root_cache_ok mem_manager key_a (world0 mem_empty)"
    "root_cache_ok (mem_manager\<lparr>self := 1\<rparr>) (CacheKey 7 ''a'' [] ''sha256:opA'' 0) (world0 mem_empty)"
    by (simp_all add: root_cache_ok_def world0_def)
  have al: "addr key_a < allocated (world0 mem_empty)" by (simp add: key_a_def world0_def)
  have p: "\<not> prefix ''random:'' ''sha256:opA''" "prefix ''random:'' ''random:xyz''" by simp_all
  have f: "FromBytes env0 (''sha256:opA'' @ ''@'' @ fmt_d 2) = ''sha256:sha256:opA@2''"
    by (simp add: env0_def fmt_d_def decimal.simps digit_def)
  note t1 = root_key_deterministic[of key_a env0 mem_manager "world0 mem_empty" "''sha256:opA''" 2
        key_a "CacheKey 7 ''a'' [] ''sha256:opA'' 0" mem_manager "world0 mem_empty" "mem_manager\<lparr>self := 1\<rparr>" "world0 mem_empty"]
  note t2 = root_key_deterministic[of key_a env0 mem_manager "world0 mem_empty" "''random:xyz''" 2
        key_a key_a mem_manager "world0 mem_empty" mem_manager "world0 mem_empty"]
  from t1 d r have g: "fst (getID env0 mem_manager key_a (world0 mem_empty)) = ''a''" by simp
  from t1 d r al have s: "getID env0 mem_manager key_a
     (run_steps env0 [Resolve mem_manager key_c, Allocate mem_manager ''X'' ''sha256:opC'' 0,
                      Storage (\<lambda>s. mem_c)]
        (snd (getID env0 mem_manager key_a (world0 mem_empty)))) =
   (''a'', run_steps env0 [Resolve mem_manager key_c, Allocate mem_manager ''X'' ''sha256:opC'' 0,
                      Storage (\<lambda>s. mem_c)]
        (snd (getID env0 mem_manager key_a (world0 mem_empty))))" by metis
  from t1 p f have k1: "rootKey env0 ''sha256:opA'' 2 = ''sha256:sha256:opA@2''" by simp
  from t2 p have k2: "rootKey env0 ''random:xyz'' 2 = ''random:xyz''" by simp
  from t1 have "deps key_a = [] \<and> deps (CacheKey 7 ''a'' [] ''sha256:opA'' 0) = [] \<and>
      ID key_a = ID (CacheKey 7 ''a'' [] ''sha256:opA'' 0) \<and>
      root_cache_ok mem_manager key_a (world0 mem_empty) \<and>
      root_cache_ok (mem_manager\<lparr>self := 1\<rparr>) (CacheKey 7 ''a'' [] ''sha256:opA'' 0) (world0 mem_empty)
      \<longrightarrow> fst (getID env0 mem_manager key_a (world0 mem_empty)) =
     fst (getID env0 (mem_manager\<lparr>self := 1\<rparr>) (CacheKey 7 ''a'' [] ''sha256:opA'' 0) (world0 mem_empty))"
    by blast
  with d r have e: "fst (getID env0 mem_manager key_a (world0 mem_empty)) =
     fst (getID env0 (mem_manager\<lparr>self := 1\<rparr>) (CacheKey 7 ''a'' [] ''sha256:opA'' 0) (world0 mem_empty))"
    by simp
  from t1 have "getID env0 mem_manager (fst (newRootKey env0 mem_manager ''sha256:opA'' 2 (world0 mem_empty)))
     (run_steps env0 [Resolve mem_manager key_c]
        (snd (newRootKey env0 mem_manager ''sha256:opA'' 2 (world0 mem_empty)))) =
     (rootKey env0 ''sha256:opA'' 2, run_steps env0 [Resolve mem_manager key_c]
        (snd (newRootKey env0 mem_manager ''sha256:opA'' 2 (world0 mem_empty))))" by blast
  with k1 have n: "fst (getID env0 mem_manager (fst (newRootKey env0 mem_manager ''sha256:opA'' 2 (world0 mem_empty)))
     (run_steps env0 [Resolve mem_manager key_c]
        (snd (newRootKey env0 mem_manager ''sha256:opA'' 2 (world0 mem_empty))))) =
     ''sha256:sha256:opA@2''" by simp
  show ?thesis
    by (intro conjI) (rule d(1) r(1) al g s k1 k2 e n)+
qed

text \<open>
  Claim C10. For a digest that starts with \<^verbatim>\<open>random:\<close>, \<^verbatim>\<open>rootKey\<close> does not depend on the
  output, and the root keys of two outputs resolve to the same identifier; for any other
  digest, two different outputs give two different identifiers, the digest function
  being free of collisions.
\<close>

theorem rootKey_random_ignores_output:
  "(prefix ''random:'' dgst \<longrightarrow>
      rootKey E dgst o1 = rootKey E dgst o2 \<and>
      fst (getID E c (fst (newRootKey E c dgst o1 w1)) (snd (newRootKey E c dgst o1 w1))) =
      fst (getID E c (fst (newRootKey E c dgst o2 w2)) (snd (newRootKey E c dgst o2 w2)))) \<and>
   (\<not> prefix ''random:'' dgst \<and> inj (FromBytes E) \<and> o1 \<noteq> o2 \<longrightarrow>
      rootKey E dgst o1 \<noteq> rootKey E dgst o2)"
proof -
  have r: "fst (getID E c (fst (newRootKey E c dgst out w)) (snd (newRootKey E c dgst out w))) =
      rootKey E dgst out" for out and w :: "'a world"
    using newRootKey_resolves[of E c dgst out w] by (cases "newRootKey E c dgst out w") simp
  show ?thesis
    by (auto simp: r rootKey_eq dest: injD fmt_d_inj)
qed

theorem rootKey_random_ignores_output_witness:
  "prefix ''random:'' ''random:xyz'' \<and> rootKey env0 ''random:xyz'' 0 = rootKey env0 ''random:xyz'' 1 \<and>
   fst (getID env0 mem_manager (fst (newRootKey env0 mem_manager ''random:xyz'' 0 (world0 mem_empty)))
          (snd (newRootKey env0 mem_manager ''random:xyz'' 0 (world0 mem_empty)))) =
   fst (getID env0 mem_manager (fst (newRootKey env0 mem_manager ''random:xyz'' 1 (world0 mem_empty)))
          (snd (newRootKey env0 mem_manager ''random:xyz'' 1 (world0 mem_empty)))) \<and>
   \<not> prefix ''random:'' ''sha256:opA'' \<and> inj (FromBytes env0) \<and>
   rootKey env0 ''sha256:opA'' 0 \<noteq> rootKey env0 ''sha256:opA'' 1"
proof -
  have i: "inj (FromBytes env0)" by (simp add: env0_def inj_def)
  have p: "\<not> prefix ''random:'' ''sha256:opA''" "prefix ''random:'' ''random:xyz''" by simp_all
  show ?thesis
    using rootKey_random_ignores_output[of "''random:xyz''" env0 0 1 mem_manager
        "world0 mem_empty" "world0 mem_empty"]
      rootKey_random_ignores_output[of "''sha256:opA''" env0 0 1 mem_manager
        "world0 mem_empty" "world0 mem_empty"] i p
    by simp
qed

section \<open>The loops of getIDFromDeps\<close>

lemma resolved_more_store: "resolved_more w w' \<Longrightarrow> store w' = store w"
  by (simp add: resolved_more_def)

lemma resolved_more_keeps: "resolved_more w w' \<Longrightarrow> ids w x = Some v \<Longrightarrow> ids w' x = Some v"
  by (cases x) (simp add: resolved_more_def)

lemma getID_step:
  assumes "getID E c p w = (pid, w1)"
  shows "resolved_more w w1" and "ids w1 (addr p, self c) = Some pid"
  using getID_family_resolved_more(1)[of w E c p] getID_caches[OF assms] assms by simp_all

lemma deps_loop_step:
  assumes "getIDFromDeps_deps E c out dg i ds ms w = (ms', w')"
  shows "resolved_more w w'"
  using getID_family_resolved_more(4)[of w E c out dg i ds ms] assms by simp

lemma slots_loop_step:
  assumes "getIDFromDeps_slots E c out dg i dss ms w = (ms', w')"
  shows "resolved_more w w'"
  using getID_family_resolved_more(3)[of w E c out dg i dss ms] assms by simp

text \<open>One parent of the inner loop, unfolded.\<close>

lemma deps_loop_Cons:
  assumes "getIDFromDeps_deps E c out dg i ((p, sel) # rest) ms w = (ms', w')"
  shows "\<exists>pid found err w2.
    WalkLinks (backend c) (store w) pid \<lparr>Input = int i, Output = out, Digest = dg, Selector = sel\<rparr> = (found, err) \<and>
    resolved_more w w2 \<and> ids w2 (addr p, self c) = Some pid \<and>
    (err \<noteq> None \<longrightarrow> ms' = [] \<and> w' = w2) \<and>
    (err = None \<longrightarrow> getIDFromDeps_deps E c out dg i rest
        (if i = 0 then List.union ms found else filter (\<lambda>x. x \<in> set found) ms) w2 = (ms', w'))"
proof -
  let ?l = "\<lparr>Input = int i, Output = out, Digest = dg, Selector = sel\<rparr>"
  obtain pid w1 where g: "getID E c p w = (pid, w1)" by (cases "getID E c p w")
  obtain found err w2 where b: "backend_WalkLinks c pid ?l w1 = ((found, err), w2)"
    by (cases "backend_WalkLinks c pid ?l w1") auto
  note s = getID_step[OF g]
  from b have r12: "resolved_more w1 w2" by (rule resolved_more_WalkLinks)
  with s(1) have r: "resolved_more w w2" by (rule resolved_more_trans)
  from r12 s(2) have i2: "ids w2 (addr p, self c) = Some pid" by (rule resolved_more_keeps)
  from b s(1) have wl: "WalkLinks (backend c) (store w) pid ?l = (found, err)"
    by (auto simp: backend_WalkLinks_def resolved_more_store)
  have e1: "err \<noteq> None \<longrightarrow> ms' = [] \<and> w' = w2"
    using assms g b by auto
  have e2: "err = None \<longrightarrow> getIDFromDeps_deps E c out dg i rest
        (if i = 0 then List.union ms found else filter (\<lambda>x. x \<in> set found) ms) w2 = (ms', w')"
    using assms g b by auto
  from wl r i2 e1 e2 show ?thesis by blast
qed

lemma deps_loop_nonempty:
  assumes "getIDFromDeps_deps E c out dg i ds ms w = (ms', w')" and "ms' \<noteq> []"
    and "ps \<in> set ds"
  shows "ids w' (addr (fst ps), self c) \<noteq> None \<and> \<not> walk_failed c out dg (store w) (ids w') i ps"
  using assms
proof (induction ds arbitrary: ms w)
  case Nil
  then show ?case by simp
next
  case (Cons a rest)
  obtain p sel where a: "a = (p, sel)" by (cases a)
  from deps_loop_Cons[OF Cons.prems(1)[unfolded a]] obtain pid found err w2 where
    wl: "WalkLinks (backend c) (store w) pid \<lparr>Input = int i, Output = out, Digest = dg, Selector = sel\<rparr> = (found, err)" and
    r: "resolved_more w w2" and i2: "ids w2 (addr p, self c) = Some pid" and
    e1: "err \<noteq> None \<Longrightarrow> ms' = [] \<and> w' = w2" and
    e2: "err = None \<Longrightarrow> getIDFromDeps_deps E c out dg i rest
        (if i = 0 then List.union ms found else filter (\<lambda>x. x \<in> set found) ms) w2 = (ms', w')"
    by blast
  from e1 Cons.prems(2) have err: "err = None" by blast
  note rest = e2[OF err]
  from rest have r2: "resolved_more w2 w'" by (rule deps_loop_step)
  show ?case
  proof (cases "ps = a")
    case True
    from r2 i2 have "ids w' (addr p, self c) = Some pid" by (rule resolved_more_keeps)
    with True a wl err show ?thesis by (simp add: walk_failed_def)
  next
    case False
    with Cons.prems(3) have "ps \<in> set rest" by simp
    from Cons.IH[OF rest Cons.prems(2) this] r show ?thesis by (simp add: resolved_more_store)
  qed
qed

lemma deps_loop_sets:
  assumes "getIDFromDeps_deps E c out dg i ds ms w = (ms', w')"
    and "\<forall>ps \<in> set ds. \<not> walk_failed c out dg (store w) (ids w') i ps"
  shows "(\<forall>ps \<in> set ds. ids w' (addr (fst ps), self c) \<noteq> None) \<and>
         set ms' = (if i = 0 then set ms \<union> (\<Union>ps \<in> set ds. reached c out dg (store w) (ids w') i ps)
                    else {x \<in> set ms. \<forall>ps \<in> set ds. x \<in> reached c out dg (store w) (ids w') i ps})"
  using assms
proof (induction ds arbitrary: ms w)
  case Nil
  then show ?case by auto
next
  case (Cons a rest)
  obtain p sel where a: "a = (p, sel)" by (cases a)
  from deps_loop_Cons[OF Cons.prems(1)[unfolded a]] obtain pid found err w2 where
    wl: "WalkLinks (backend c) (store w) pid \<lparr>Input = int i, Output = out, Digest = dg, Selector = sel\<rparr> = (found, err)" and
    r: "resolved_more w w2" and i2: "ids w2 (addr p, self c) = Some pid" and
    e1: "err \<noteq> None \<Longrightarrow> ms' = [] \<and> w' = w2" and
    e2: "err = None \<Longrightarrow> getIDFromDeps_deps E c out dg i rest
        (if i = 0 then List.union ms found else filter (\<lambda>x. x \<in> set found) ms) w2 = (ms', w')"
    by blast
  have s2: "store w2 = store w" using r by (rule resolved_more_store)
  have i': "ids w' (addr p, self c) = Some pid"
  proof (cases "err = None")
    case True
    from e2[OF True] have "resolved_more w2 w'" by (rule deps_loop_step)
    then show ?thesis using i2 by (rule resolved_more_keeps)
  next
    case False
    with e1 i2 show ?thesis by simp
  qed
  from Cons.prems(2) a have "\<not> walk_failed c out dg (store w) (ids w') i (p, sel)" by simp
  with i' wl have err: "err = None" by (simp add: walk_failed_def)
  note rest = e2[OF err]
  have hd: "reached c out dg (store w) (ids w') i a = set found"
    using i' wl a by (simp add: reached_def)
  from Cons.prems(2) s2 have "\<forall>ps \<in> set rest. \<not> walk_failed c out dg (store w2) (ids w') i ps" by simp
  from Cons.IH[OF rest this] s2
  have ih: "(\<forall>ps\<in>set rest. ids w' (addr (fst ps), self c) \<noteq> None)"
     "set ms' = (if i = 0
        then set (if i = 0 then List.union ms found else filter (\<lambda>x. x \<in> set found) ms) \<union>
             (\<Union>ps \<in> set rest. reached c out dg (store w) (ids w') i ps)
        else {x \<in> set (if i = 0 then List.union ms found else filter (\<lambda>x. x \<in> set found) ms).
                \<forall>ps \<in> set rest. x \<in> reached c out dg (store w) (ids w') i ps})"
    by simp_all
  from ih(1) i' a have all: "\<forall>ps\<in>set (a # rest). ids w' (addr (fst ps), self c) \<noteq> None" by simp
  have "set ms' = (if i = 0 then set ms \<union> (\<Union>ps \<in> set (a # rest). reached c out dg (store w) (ids w') i ps)
                    else {x \<in> set ms. \<forall>ps \<in> set (a # rest). x \<in> reached c out dg (store w) (ids w') i ps})"
  proof (cases "i = 0")
    case True
    with ih(2) hd show ?thesis by auto
  next
    case False
    with ih(2) hd show ?thesis by auto
  qed
  with all show ?case by blast
qed


lemma reached_keeps:
  assumes "resolved_more w1 w'" and "ids w1 (addr (fst ps), self c) \<noteq> None"
  shows "reached c out dg s (ids w') j ps = reached c out dg s (ids w1) j ps"
proof -
  from assms(2) obtain pid where p: "ids w1 (addr (fst ps), self c) = Some pid" by blast
  with assms(1) have "ids w' (addr (fst ps), self c) = Some pid" by (rule resolved_more_keeps)
  with p show ?thesis by (simp add: reached_def)
qed

lemma walk_failed_keeps:
  assumes "resolved_more w1 w'" and "ids w1 (addr (fst ps), self c) \<noteq> None"
  shows "walk_failed c out dg s (ids w') j ps = walk_failed c out dg s (ids w1) j ps"
proof -
  from assms(2) obtain pid where p: "ids w1 (addr (fst ps), self c) = Some pid" by blast
  with assms(1) have "ids w' (addr (fst ps), self c) = Some pid" by (rule resolved_more_keeps)
  with p show ?thesis by (simp add: walk_failed_def)
qed

lemma walk_failed_later:
  assumes "resolved_more w1 w'" and "walk_failed c out dg s (ids w1) j ps"
  shows "walk_failed c out dg s (ids w') j ps"
proof -
  from assms(2) have "ids w1 (addr (fst ps), self c) \<noteq> None"
    by (auto simp: walk_failed_def split: option.splits)
  with assms show ?thesis by (simp add: walk_failed_keeps)
qed

lemma slots_loop_skip: "i \<noteq> 0 \<Longrightarrow> getIDFromDeps_slots E c out dg i dss [] w = ([], w)"
  by (induction dss arbitrary: i) simp_all

text \<open>One slot of the outer loop, unfolded.\<close>

lemma slots_loop_Cons:
  assumes "getIDFromDeps_slots E c out dg i (ds # rest) ms w = (ms', w')"
    and "i = 0 \<or> ms \<noteq> []"
  shows "\<exists>m1 w1. getIDFromDeps_deps E c out dg i ds ms w = (m1, w1) \<and>
           getIDFromDeps_slots E c out dg (Suc i) rest m1 w1 = (ms', w')"
  using assms by (cases "getIDFromDeps_deps E c out dg i ds ms w") auto

lemma slots_loop_nonempty:
  assumes "getIDFromDeps_slots E c out dg i dss ms w = (ms', w')" and "ms' \<noteq> []"
    and "j < length dss" and "ps \<in> set (dss ! j)"
  shows "ids w' (addr (fst ps), self c) \<noteq> None \<and>
         \<not> walk_failed c out dg (store w) (ids w') (i + j) ps"
  using assms
proof (induction dss arbitrary: i ms w j)
  case Nil
  then show ?case by simp
next
  case (Cons ds rest)
  have guard: "i = 0 \<or> ms \<noteq> []"
  proof (rule ccontr)
    assume "\<not> (i = 0 \<or> ms \<noteq> [])"
    then have "getIDFromDeps_slots E c out dg i (ds # rest) ms w = ([], w)"
      by (simp add: slots_loop_skip)
    with Cons.prems(1,2) show False by simp
  qed
  from slots_loop_Cons[OF Cons.prems(1) guard] obtain m1 w1 where
    d: "getIDFromDeps_deps E c out dg i ds ms w = (m1, w1)" and
    s: "getIDFromDeps_slots E c out dg (Suc i) rest m1 w1 = (ms', w')" by blast
  have m1: "m1 \<noteq> []"
  proof
    assume "m1 = []"
    with s have "ms' = []" by (simp add: slots_loop_skip)
    with Cons.prems(2) show False by simp
  qed
  from d have r1: "resolved_more w w1" by (rule deps_loop_step)
  from s have r2: "resolved_more w1 w'" by (rule slots_loop_step)
  show ?case
  proof (cases j)
    case 0
    with Cons.prems(4) have "ps \<in> set ds" by simp
    from deps_loop_nonempty[OF d m1 this]
    have a: "ids w1 (addr (fst ps), self c) \<noteq> None"
      and b: "\<not> walk_failed c out dg (store w) (ids w1) i ps" by simp_all
    from a obtain pid where "ids w1 (addr (fst ps), self c) = Some pid" by blast
    with r2 have "ids w' (addr (fst ps), self c) = Some pid" by (rule resolved_more_keeps)
    moreover from b have "\<not> walk_failed c out dg (store w) (ids w') i ps"
      by (simp add: walk_failed_keeps[OF r2 a])
    ultimately show ?thesis using 0 by simp
  next
    case (Suc j')
    with Cons.prems(3,4) have "j' < length rest" "ps \<in> set (rest ! j')" by simp_all
    from Cons.IH[OF s Cons.prems(2) this] r1 Suc show ?thesis
      by (simp add: resolved_more_store)
  qed
qed

lemma slots_loop_sets:
  assumes "getIDFromDeps_slots E c out dg i dss ms w = (ms', w')" and "i \<noteq> 0"
    and "\<forall>j < length dss. \<forall>ps \<in> set (dss ! j).
           \<not> walk_failed c out dg (store w) (ids w') (i + j) ps"
  shows "set ms' = {x \<in> set ms. \<forall>j < length dss. \<forall>ps \<in> set (dss ! j).
                      x \<in> reached c out dg (store w) (ids w') (i + j) ps}"
  using assms
proof (induction dss arbitrary: i ms w)
  case Nil
  then show ?case by simp
next
  case (Cons ds rest)
  show ?case
  proof (cases "ms = []")
    case True
    with Cons.prems(1,2) show ?thesis by (simp add: slots_loop_skip)
  next
    case False
    then have guard: "i = 0 \<or> ms \<noteq> []" by simp
    from slots_loop_Cons[OF Cons.prems(1) guard] obtain m1 w1 where
      d: "getIDFromDeps_deps E c out dg i ds ms w = (m1, w1)" and
      s: "getIDFromDeps_slots E c out dg (Suc i) rest m1 w1 = (ms', w')" by blast
    from d have r1: "resolved_more w w1" by (rule deps_loop_step)
    from s have r2: "resolved_more w1 w'" by (rule slots_loop_step)
    have s1: "store w1 = store w" using r1 by (rule resolved_more_store)
    have nf0: "\<forall>ps \<in> set ds. \<not> walk_failed c out dg (store w) (ids w1) i ps"
    proof
      fix ps assume ps: "ps \<in> set ds"
      with Cons.prems(3) have "\<not> walk_failed c out dg (store w) (ids w') (i + 0) ps"
        by (metis length_greater_0_conv list.discI nth_Cons_0)
      then show "\<not> walk_failed c out dg (store w) (ids w1) i ps"
        using walk_failed_later[OF r2, of c out dg "store w" i ps] by auto
    qed
    from deps_loop_sets[OF d nf0] Cons.prems(2)
    have res: "\<forall>ps \<in> set ds. ids w1 (addr (fst ps), self c) \<noteq> None"
      and m1: "set m1 = {x \<in> set ms. \<forall>ps \<in> set ds. x \<in> reached c out dg (store w) (ids w1) i ps}"
      by simp_all
    from res have same: "\<forall>ps \<in> set ds. reached c out dg (store w) (ids w') i ps =
        reached c out dg (store w) (ids w1) i ps"
      by (simp add: reached_keeps[OF r2])
    from m1 same
    have m1': "set m1 = {x \<in> set ms. \<forall>ps \<in> set ds. x \<in> reached c out dg (store w) (ids w') i ps}"
      by auto
    have nf: "\<forall>j < length rest. \<forall>ps \<in> set (rest ! j).
           \<not> walk_failed c out dg (store w1) (ids w') (Suc i + j) ps"
    proof (intro allI impI ballI)
      fix j ps assume "j < length rest" "ps \<in> set (rest ! j)"
      then have "Suc j < length (ds # rest)" "ps \<in> set ((ds # rest) ! Suc j)" by simp_all
      with Cons.prems(3) have "\<not> walk_failed c out dg (store w) (ids w') (i + Suc j) ps" by blast
      then show "\<not> walk_failed c out dg (store w1) (ids w') (Suc i + j) ps" by (simp add: s1)
    qed
    from Cons.IH[OF s _ nf]
    have ih: "set ms' = {x \<in> set m1. \<forall>j<length rest. \<forall>ps\<in>set (rest ! j).
                 x \<in> reached c out dg (store w) (ids w') (Suc i + j) ps}"
      by (simp add: s1)
    have split: "(\<forall>j < length (ds # rest). \<forall>ps \<in> set ((ds # rest) ! j). x \<in> reached c out dg (store w) (ids w') (i + j) ps)
        \<longleftrightarrow> (\<forall>ps \<in> set ds. x \<in> reached c out dg (store w) (ids w') i ps) \<and>
            (\<forall>j<length rest. \<forall>ps\<in>set (rest ! j). x \<in> reached c out dg (store w) (ids w') (Suc i + j) ps)"
      for x
      by (auto simp: All_less_Suc2 nth_Cons')
    show ?thesis unfolding ih m1' using split by auto
  qed
qed


lemma pick_order_set: "set (pick_order ns xs) = set xs"
proof (induction ns arbitrary: xs)
  case Nil
  show ?case by simp
next
  case (Cons n ns)
  show ?case
  proof (cases "xs = []")
    case True
    then show ?thesis by simp
  next
    case False
    let ?i = "n mod length xs"
    from False have i: "?i < length xs" by simp
    have "set xs = set (take ?i xs @ xs ! ?i # drop (Suc ?i) xs)"
      using id_take_nth_drop[OF i] by simp
    then have "set xs = insert (xs ! ?i) (set (take ?i xs @ drop (Suc ?i) xs))" by simp
    with False Cons.IH[of "take ?i xs @ drop (Suc ?i) xs"] show ?thesis by (simp add: Let_def)
  qed
qed

lemma getIDFromDeps_result:
  assumes "getIDFromDeps E c k w = (r, w')"
  shows "\<exists>ms w1. getIDFromDeps_slots E c (output_idx k) (digest k) 0 (deps k) [] w = (ms, w1) \<and>
           ids w' = ids w1 \<and>
           (ms \<noteq> [] \<longrightarrow> r \<in> set ms \<and> minted w' = minted w1) \<and>
           (ms = [] \<longrightarrow> (\<exists>w2. resolved_more w w2 \<and> minted w2 = minted w1 \<and>
                                identity_NewID E w2 = (r, w')))"
proof -
  obtain ms w1 where s: "getIDFromDeps_slots E c (output_idx k) (digest k) 0 (deps k) [] w = (ms, w1)"
    by (cases "getIDFromDeps_slots E c (output_idx k) (digest k) 0 (deps k) [] w")
  obtain es w2 where m: "mapRange E ms w1 = (es, w2)" by (cases "mapRange E ms w1")
  from m have es: "set es = set ms" and i2: "ids w2 = ids w1" and m2: "minted w2 = minted w1"
    by (auto simp: mapRange_def pick_order_set)
  from s have "resolved_more w w1" by (rule slots_loop_step)
  moreover from m have "resolved_more w1 w2" by (rule resolved_more_mapRange)
  ultimately have r2: "resolved_more w w2" by (rule resolved_more_trans)
  show ?thesis
  proof (cases es)
    case Nil
    with es have ms: "ms = []" by simp
    from assms s m Nil have n: "identity_NewID E w2 = (r, w')" by (simp add: getIDFromDeps.simps)
    then have "ids w' = ids w2" by (auto simp: identity_NewID_def)
    with s i2 ms n r2 m2 show ?thesis by auto
  next
    case (Cons e es')
    with assms s m have "r = e" "w' = w2" by (simp_all add: getIDFromDeps.simps)
    moreover from Cons es have "e \<in> set ms" "ms \<noteq> []" by auto
    ultimately show ?thesis using s i2 m2 by auto
  qed
qed

lemma mem_never_fails: "\<not> walk_failed mem_manager out dg s idm j ps"
  by (simp add: walk_failed_def mem_manager_def mem_backend_def split: option.splits)

lemma reached_Some:
  "ids w' (addr p, self c) = Some pid \<Longrightarrow>
     reached c out dg s (ids w') j (p, sel) =
       set (fst (WalkLinks (backend c) s pid
                   \<lparr>Input = int j, Output = out, Digest = dg, Selector = sel\<rparr>))"
  by (simp add: reached_def)

lemma all_slots_2: "(\<forall>j<Suc (Suc 0). P j) \<longleftrightarrow> P 0 \<and> P (Suc 0)"
  by (auto simp: less_Suc_eq)

lemma later_slots_2: "(\<forall>j. 0 < j \<and> j < Suc (Suc 0) \<longrightarrow> P j) \<longleftrightarrow> P (Suc 0)"
  by (auto simp: less_Suc_eq)

lemma walks_mem_c:
  "fst (WalkLinks (backend mem_manager) (store (world0 mem_c)) ''a''
     \<lparr>Input = 0, Output = output_idx key_c, Digest = digest key_c, Selector = ''s1''\<rparr>) = [''X'']"
  "fst (WalkLinks (backend mem_manager) (store (world0 mem_c)) ''b''
     \<lparr>Input = 1, Output = output_idx key_c, Digest = digest key_c, Selector = ''s2''\<rparr>) = [''X'']"
  "fst (WalkLinks (backend mem_manager) (store (world0 mem_c)) ''b2''
     \<lparr>Input = 1, Output = output_idx key_c, Digest = digest key_c, Selector = ''s2''\<rparr>) = []"
  by code_simp+

lemma walks_mem_d:
  "fst (WalkLinks (backend mem_manager) (store (world0 mem_d)) ''a''
     \<lparr>Input = 0, Output = output_idx key_d, Digest = digest key_d, Selector = ''s1''\<rparr>) = [''X'']"
  "fst (WalkLinks (backend mem_manager) (store (world0 mem_d)) ''b''
     \<lparr>Input = 1, Output = output_idx key_d, Digest = digest key_d, Selector = ''s2''\<rparr>) = [''X'']"
  "fst (WalkLinks (backend mem_manager) (store (world0 mem_d)) ''b2''
     \<lparr>Input = 1, Output = output_idx key_d, Digest = digest key_d, Selector = ''s2''\<rparr>) = [''X'']"
  by code_simp+

text \<open>
  Claim C3. When a walk that the derivation of a key asks of the storage fails (the walk
  from a parent, by the identifier the parent has after the derivation, with the label
  of its slot), \<^verbatim>\<open>getIDFromDeps\<close> returns no error: the loops end with no candidate,
  whatever the walks before the failing one have handed over, and its last step is a call of
  \<^verbatim>\<open>identity.NewID\<close>, made in a world \<open>w1\<close> that the call has reached from \<open>w\<close> by resolving
  parents and walking links only, and its result is the identifier of that call. So the
  identifier is minted during the call, after every identifier handed out before it and
  after those minted for the parents: the counter of \<^verbatim>\<open>identity.NewID\<close> is larger than before
  the call, one more than when the loops ended, and the result is the last identifier
  handed out. The state of the storage
  is the one before the call, and the only calls made on the storage are \<^verbatim>\<open>WalkLinks\<close>
  calls, so that no link has been added for the new identifier. A walk that is never
  asked, because an earlier one failed or because no candidate was left, leads to the
  same result.
\<close>

theorem getIDFromDeps_failed_walk:
  assumes "getIDFromDeps E c k w = (r, w')"
    and "j < length (deps k)" and "ps \<in> set (deps k ! j)"
    and "walk_failed c (output_idx k) (digest k) (store w) (ids w') j ps"
  shows "fst (getIDFromDeps_slots E c (output_idx k) (digest k) 0 (deps k) [] w) = [] \<and>
         (\<exists>w1. resolved_more w w1 \<and> identity_NewID E w1 = (r, w')) \<and>
         minted w < minted w' \<and> r = NewID E (minted w' - 1) \<and>
         minted w' =
           Suc (minted (snd (getIDFromDeps_slots E c (output_idx k) (digest k) 0 (deps k) [] w))) \<and>
         store w' = store w \<and>
         (\<exists>cs. calls w' = calls w @ cs \<and> list_all is_WalkLinks cs)"
proof -
  from getIDFromDeps_result[OF assms(1)] obtain ms w1 where
    s: "getIDFromDeps_slots E c (output_idx k) (digest k) 0 (deps k) [] w = (ms, w1)" and
    i: "ids w' = ids w1" and
    f: "ms = [] \<longrightarrow> (\<exists>w2. resolved_more w w2 \<and> minted w2 = minted w1 \<and>
                              identity_NewID E w2 = (r, w'))" by blast
  have e: "ms = []"
  proof (rule ccontr)
    assume "ms \<noteq> []"
    from slots_loop_nonempty[OF s this assms(2,3)] assms(4) i show False by simp
  qed
  with f obtain w2 where r2: "resolved_more w w2" and m2: "minted w2 = minted w1"
    and n: "identity_NewID E w2 = (r, w')"
    by blast
  from r2 have "minted w \<le> minted w2" by (simp add: resolved_more_def)
  with n have m: "minted w < minted w'" "r = NewID E (minted w' - 1)"
    by (auto simp: identity_NewID_def)
  from n m2 have m': "minted w' = Suc (minted w1)" by (auto simp: identity_NewID_def)
  from getID_family_resolved_more(2)[of w E c k] assms(1)
  have "resolved_more w w'" by simp
  then have "store w' = store w \<and> (\<exists>cs. calls w' = calls w @ cs \<and> list_all is_WalkLinks cs)"
    by (simp add: resolved_more_def)
  moreover from r2 n have "\<exists>w1. resolved_more w w1 \<and> identity_NewID E w1 = (r, w')" by blast
  ultimately show ?thesis using m m' s e by simp
qed

theorem getIDFromDeps_failed_walk_witness:
  "walk_failed flaky_manager (output_idx key_c) (digest key_c) (store (world0 mem_c))
     (ids (snd (getIDFromDeps env0 flaky_manager key_c (world0 mem_c)))) 1 (key_b, ''s2'') \<and>
   fst (getIDFromDeps_deps env0 flaky_manager (output_idx key_c) (digest key_c) 0
          [(key_a, ''s1'')] [] (world0 mem_c)) = [''X''] \<and>
   fst (getIDFromDeps_slots env0 flaky_manager (output_idx key_c) (digest key_c) 0
          (deps key_c) [] (world0 mem_c)) = [] \<and>
   fst (getIDFromDeps env0 flaky_manager key_c (world0 mem_c)) = ''id0'' \<and>
   (\<exists>w1. resolved_more (world0 mem_c) w1 \<and>
      identity_NewID env0 w1 = getIDFromDeps env0 flaky_manager key_c (world0 mem_c)) \<and>
   minted (world0 mem_c) < minted (snd (getIDFromDeps env0 flaky_manager key_c (world0 mem_c))) \<and>
   store (snd (getIDFromDeps env0 flaky_manager key_c (world0 mem_c))) = mem_c"
proof -
  let ?R = "getIDFromDeps env0 flaky_manager key_c (world0 mem_c)"
  have r: "fst ?R = ''id0''" by code_simp
  have g: "?R = (fst ?R, snd ?R)" by simp
  have ib: "ids (snd ?R) (addr key_b, self flaky_manager) = Some ''b''" by code_simp
  have j: "1 < length (deps key_c)" "(key_b, ''s2'') \<in> set (deps key_c ! 1)"
    by (simp_all add: key_c_def)
  have "snd (WalkLinks (backend flaky_manager) (store (world0 mem_c)) ''b''
     \<lparr>Input = int 1, Output = output_idx key_c, Digest = digest key_c, Selector = ''s2''\<rparr>) \<noteq> None"
    by (simp add: flaky_manager_def)
  with ib have f: "walk_failed flaky_manager (output_idx key_c) (digest key_c) (store (world0 mem_c))
     (ids (snd ?R)) 1 (key_b, ''s2'')"
    by (simp add: walk_failed_def)
  have s: "store (world0 mem_c) = mem_c" by (simp add: world0_def)
  have x: "fst (getIDFromDeps_deps env0 flaky_manager (output_idx key_c) (digest key_c) 0
          [(key_a, ''s1'')] [] (world0 mem_c)) = [''X'']" by code_simp
  from getIDFromDeps_failed_walk[OF g j f] have
    "fst (getIDFromDeps_slots env0 flaky_manager (output_idx key_c) (digest key_c) 0
          (deps key_c) [] (world0 mem_c)) = []"
    "\<exists>w1. resolved_more (world0 mem_c) w1 \<and> identity_NewID env0 w1 = ?R"
    "minted (world0 mem_c) < minted (snd ?R)" "store (snd ?R) = store (world0 mem_c)"
    by simp_all
  with f r s x show ?thesis by simp
qed

text \<open>
  Claim C1, as stated, fails: with the parents \<open>b\<close> and \<open>b2\<close> in the second slot, \<open>X\<close> is
  linked from a parent of every slot (\<open>a\<close> and \<open>b\<close>), yet the walk from \<open>b2\<close> hands over
  nothing, \<open>X\<close> is deleted, and \<^verbatim>\<open>getIDFromDeps\<close> returns a new identifier.
\<close>

theorem getIDFromDeps_claimed_counterexample:
  "''X'' \<in> claimed_survivors mem_manager key_d (world0 mem_c)
             (snd (getIDFromDeps env0 mem_manager key_d (world0 mem_c))) \<and>
   fst (getIDFromDeps env0 mem_manager key_d (world0 mem_c)) = ''id0'' \<and>
   fst (getIDFromDeps env0 mem_manager key_d (world0 mem_c)) \<notin>
     claimed_survivors mem_manager key_d (world0 mem_c)
             (snd (getIDFromDeps env0 mem_manager key_d (world0 mem_c)))"
proof -
  let ?R = "getIDFromDeps env0 mem_manager key_d (world0 mem_c)"
  have r: "fst ?R = ''id0''" by code_simp
  have ia: "ids (snd ?R) (addr key_a, self mem_manager) = Some ''a''" by code_simp
  have ib: "ids (snd ?R) (addr key_b, self mem_manager) = Some ''b''" by code_simp
  have ib2: "ids (snd ?R) (addr key_b2, self mem_manager) = Some ''b2''" by code_simp
  have k: "output_idx key_d = output_idx key_c" "digest key_d = digest key_c"
    by (simp_all add: key_d_def key_c_def)
  have dk: "deps key_d = [[(key_a, ''s1'')], [(key_b, ''s2''), (key_b2, ''s2'')]]"
    by (simp add: key_d_def)
  have x: "''X'' \<in> claimed_survivors mem_manager key_d (world0 mem_c) (snd ?R)"
    by (simp add: claimed_survivors_def k dk all_slots_2 reached_Some[OF ia] reached_Some[OF ib]
        reached_Some[OF ib2] walks_mem_c)
  have y: "''id0'' \<notin> claimed_survivors mem_manager key_d (world0 mem_c) (snd ?R)"
    by (simp add: claimed_survivors_def k dk all_slots_2 reached_Some[OF ia] reached_Some[OF ib]
        reached_Some[OF ib2] walks_mem_c)
  from x y r show ?thesis by simp
qed

text \<open>
  Claim C1, amended. For a key with a non-empty dependency list, when no walk fails:
  slot 0 gives the union of the identifiers handed over by its parents, and in each
  later slot every parent in turn removes the candidates its walk does not hand over;
  so an identifier survives if and only if some parent of slot 0 and every parent of
  every later slot link to it: the candidates that the loops leave are these
  \<open>survivors\<close>. If the final set is not empty, a member of it is
  returned; otherwise the last step of the call is a call of \<^verbatim>\<open>identity.NewID\<close>, made in a
  world \<open>w1\<close> reached from \<open>w\<close> by resolving parents and walking links only, and the
  result is the identifier of that call: it is minted during the call, after the loops
  have ended and after every identifier handed out before.
\<close>

theorem getIDFromDeps_survivors:
  assumes "getIDFromDeps E c k w = (r, w')"
    and "deps k \<noteq> []"
    and "\<forall>j < length (deps k). \<forall>ps \<in> set (deps k ! j).
           \<not> walk_failed c (output_idx k) (digest k) (store w) (ids w') j ps"
  shows "set (fst (getIDFromDeps_slots E c (output_idx k) (digest k) 0 (deps k) [] w)) =
           survivors c k w w' \<and>
         (survivors c k w w' \<noteq> {} \<longrightarrow> r \<in> survivors c k w w') \<and>
         (survivors c k w w' = {} \<longrightarrow>
            (\<exists>w1. resolved_more w w1 \<and> identity_NewID E w1 = (r, w')) \<and>
            minted w < minted w' \<and> r = NewID E (minted w' - 1) \<and>
            minted w' =
              Suc (minted (snd (getIDFromDeps_slots E c (output_idx k) (digest k) 0 (deps k) [] w))))"
proof -
  let ?out = "output_idx k" and ?dg = "digest k"
  from assms(2) obtain ds0 rest where dk: "deps k = ds0 # rest" by (cases "deps k") auto
  from getIDFromDeps_result[OF assms(1)] obtain ms w1 where
    s: "getIDFromDeps_slots E c ?out ?dg 0 (deps k) [] w = (ms, w1)" and
    i: "ids w' = ids w1" and
    mem: "ms \<noteq> [] \<longrightarrow> r \<in> set ms" and
    f: "ms = [] \<longrightarrow> (\<exists>w2. resolved_more w w2 \<and> minted w2 = minted w1 \<and>
                              identity_NewID E w2 = (r, w'))" by blast
  have f': "minted w < minted w' \<and> r = NewID E (minted w' - 1) \<and> minted w' = Suc (minted w1)"
    if "resolved_more w w2" and "minted w2 = minted w1" and "identity_NewID E w2 = (r, w')" for w2
  proof -
    from that(1) have "minted w \<le> minted w2" by (simp add: resolved_more_def)
    with that(2,3) show ?thesis by (auto simp: identity_NewID_def)
  qed
  from slots_loop_Cons[OF s[unfolded dk]] obtain m1 wa where
    d: "getIDFromDeps_deps E c ?out ?dg 0 ds0 [] w = (m1, wa)" and
    s': "getIDFromDeps_slots E c ?out ?dg (Suc 0) rest m1 wa = (ms, w1)" by blast
  from d have ra: "resolved_more w wa" by (rule deps_loop_step)
  from s' have r1: "resolved_more wa w1" by (rule slots_loop_step)
  have sa: "store wa = store w" using ra by (rule resolved_more_store)
  have nf0: "\<forall>ps \<in> set ds0. \<not> walk_failed c ?out ?dg (store w) (ids wa) 0 ps"
  proof
    fix ps assume "ps \<in> set ds0"
    with assms(3) dk i have "\<not> walk_failed c ?out ?dg (store w) (ids w1) 0 ps" by auto
    then show "\<not> walk_failed c ?out ?dg (store w) (ids wa) 0 ps"
      using walk_failed_later[OF r1, of c ?out ?dg "store w" 0 ps] by auto
  qed
  from deps_loop_sets[OF d nf0]
  have res: "\<forall>ps \<in> set ds0. ids wa (addr (fst ps), self c) \<noteq> None"
    and m1: "set m1 = (\<Union>ps \<in> set ds0. reached c ?out ?dg (store w) (ids wa) 0 ps)"
    by simp_all
  from res have "\<forall>ps \<in> set ds0. reached c ?out ?dg (store w) (ids w1) 0 ps =
        reached c ?out ?dg (store w) (ids wa) 0 ps"
    by (simp add: reached_keeps[OF r1])
  with m1 have m1': "set m1 = (\<Union>ps \<in> set ds0. reached c ?out ?dg (store w) (ids w1) 0 ps)"
    by simp
  have nf: "\<forall>j < length rest. \<forall>ps \<in> set (rest ! j).
           \<not> walk_failed c ?out ?dg (store wa) (ids w1) (Suc 0 + j) ps"
  proof (intro allI impI ballI)
    fix j ps assume "j < length rest" "ps \<in> set (rest ! j)"
    then have "Suc j < length (deps k)" "ps \<in> set (deps k ! Suc j)" by (simp_all add: dk)
    with assms(3) have "\<not> walk_failed c ?out ?dg (store w) (ids w') (Suc j) ps" by blast
    then show "\<not> walk_failed c ?out ?dg (store wa) (ids w1) (Suc 0 + j) ps" by (simp add: sa i)
  qed
  from slots_loop_sets[OF s' _ nf]
  have ms: "set ms = {x \<in> set m1. \<forall>j<length rest. \<forall>ps\<in>set (rest ! j).
                 x \<in> reached c ?out ?dg (store w) (ids w1) (Suc j) ps}"
    by (simp add: sa)
  have later: "(\<forall>j. 0 < j \<and> j < length (deps k) \<longrightarrow> P j) \<longleftrightarrow> (\<forall>j<length rest. P (Suc j))" for P
    unfolding dk by (auto simp: less_Suc_eq_0_disj)
  have sv: "survivors c k w w' = set ms"
    unfolding survivors_def ms m1' i later by (auto simp: dk)
  from s sv have cand: "set (fst (getIDFromDeps_slots E c ?out ?dg 0 (deps k) [] w)) =
           survivors c k w w'" by simp
  show ?thesis
  proof (cases "ms = []")
    case True
    with f obtain w2 where w2: "resolved_more w w2" "minted w2 = minted w1"
      "identity_NewID E w2 = (r, w')" by blast
    from w2(1,3) have "\<exists>w1. resolved_more w w1 \<and> identity_NewID E w1 = (r, w')" by blast
    with f'[OF w2] sv True cand s show ?thesis by simp
  next
    case False
    with mem sv cand show ?thesis by simp
  qed
qed

theorem getIDFromDeps_survivors_witness:
  "deps key_d \<noteq> [] \<and>
   fst (getIDFromDeps env0 mem_manager key_d (world0 mem_d)) = ''X'' \<and>
   fst (getIDFromDeps env0 mem_manager key_d (world0 mem_d)) \<in>
     survivors mem_manager key_d (world0 mem_d) (snd (getIDFromDeps env0 mem_manager key_d (world0 mem_d))) \<and>
   survivors mem_manager key_d (world0 mem_c)
     (snd (getIDFromDeps env0 mem_manager key_d (world0 mem_c))) = {} \<and>
   fst (getIDFromDeps env0 mem_manager key_d (world0 mem_c)) = ''id0'' \<and>
   (\<exists>w1. resolved_more (world0 mem_c) w1 \<and>
      identity_NewID env0 w1 = getIDFromDeps env0 mem_manager key_d (world0 mem_c)) \<and>
   minted (world0 mem_c) < minted (snd (getIDFromDeps env0 mem_manager key_d (world0 mem_c)))"
proof -
  let ?R = "getIDFromDeps env0 mem_manager key_d (world0 mem_d)"
  let ?Q = "getIDFromDeps env0 mem_manager key_d (world0 mem_c)"
  have d: "deps key_d \<noteq> []" by (simp add: key_d_def)
  have dk: "deps key_d = [[(key_a, ''s1'')], [(key_b, ''s2''), (key_b2, ''s2'')]]"
    by (simp add: key_d_def)
  have k: "output_idx key_d = output_idx key_c" "digest key_d = digest key_c"
    by (simp_all add: key_d_def key_c_def)
  have r: "fst ?R = ''X''" by code_simp
  have q: "fst ?Q = ''id0''" by code_simp
  have g: "?R = (fst ?R, snd ?R)" "?Q = (fst ?Q, snd ?Q)" by simp_all
  have nfR: "\<forall>j < length (deps key_d). \<forall>ps \<in> set (deps key_d ! j).
           \<not> walk_failed mem_manager (output_idx key_d) (digest key_d) (store (world0 mem_d)) (ids (snd ?R)) j ps"
    by (simp add: mem_never_fails)
  have nfQ: "\<forall>j < length (deps key_d). \<forall>ps \<in> set (deps key_d ! j).
           \<not> walk_failed mem_manager (output_idx key_d) (digest key_d) (store (world0 mem_c)) (ids (snd ?Q)) j ps"
    by (simp add: mem_never_fails)
  have ia: "ids (snd ?R) (addr key_a, self mem_manager) = Some ''a''" by code_simp
  have ib: "ids (snd ?R) (addr key_b, self mem_manager) = Some ''b''" by code_simp
  have ib2: "ids (snd ?R) (addr key_b2, self mem_manager) = Some ''b2''" by code_simp
  have ja: "ids (snd ?Q) (addr key_a, self mem_manager) = Some ''a''" by code_simp
  have jb: "ids (snd ?Q) (addr key_b, self mem_manager) = Some ''b''" by code_simp
  have jb2: "ids (snd ?Q) (addr key_b2, self mem_manager) = Some ''b2''" by code_simp
  have x: "''X'' \<in> survivors mem_manager key_d (world0 mem_d) (snd ?R)"
    by (simp add: survivors_def dk later_slots_2 reached_Some[OF ia] reached_Some[OF ib]
        reached_Some[OF ib2] walks_mem_d)
  have e: "survivors mem_manager key_d (world0 mem_c) (snd ?Q) = {}"
    by (simp add: survivors_def k dk later_slots_2 reached_Some[OF ja] reached_Some[OF jb]
        reached_Some[OF jb2] walks_mem_c)
  from getIDFromDeps_survivors[OF g(1) d nfR] x r
  have a: "fst ?R \<in> survivors mem_manager key_d (world0 mem_d) (snd ?R)" by auto
  from getIDFromDeps_survivors[OF g(2) d nfQ] e
  have b: "(\<exists>w1. resolved_more (world0 mem_c) w1 \<and> identity_NewID env0 w1 = ?Q)"
    "minted (world0 mem_c) < minted (snd ?Q)" by simp_all
  from a b d r q e show ?thesis by blast
qed

section \<open>ensurePersistentKey: what a call writes\<close>

lemma grows_refl: "grows B w w"
  by (simp add: grows_def)

lemma grows_trans: "grows B w w1 \<Longrightarrow> grows B w1 w2 \<Longrightarrow> grows B w w2"
  by (simp add: grows_def)

lemma resolved_more_grows: "resolved_more w w' \<Longrightarrow> grows B w w'"
  by (simp add: grows_def resolved_more_def)

lemma getID_grows: "getID E c k w = (i, w') \<Longrightarrow> grows B w w'"
  using getID_step(1) by (rule resolved_more_grows)

lemma HasLink_grows: "backend_HasLink c i l t w = (b, w') \<Longrightarrow> grows B w w'"
  by (auto simp: backend_HasLink_def grows_def)

lemma AddLink_grows:
  "linkstore_ok (backend c) \<Longrightarrow> backend_AddLink c i l t w = (e, w') \<Longrightarrow> grows (backend c) w w'"
  by (auto simp: backend_AddLink_def grows_def linkstore_ok_def split: prod.splits)

lemma AddLink_links:
  "linkstore_ok (backend c) \<Longrightarrow> backend_AddLink c i l t w = (None, w') \<Longrightarrow>
     HasLink (backend c) (store w') i l t"
  by (auto simp: backend_AddLink_def linkstore_ok_def split: prod.splits)

text \<open>One parent of the inner loop of ensurePersistentKey, unfolded.\<close>

lemma ensure_deps_Cons:
  assumes "ensurePersistentKey_deps E c out dg kid i ((p, sel) # rest) w = (e, w')"
  shows "\<exists>pid w1 w2.
    getID E c p w = (pid, w1) \<and>
    w2 = w1\<lparr>calls := calls w1 @ [CallHasLink pid \<lparr>Input = int i, Output = out, Digest = dg, Selector = sel\<rparr> kid]\<rparr> \<and>
    (HasLink (backend c) (store w1) pid \<lparr>Input = int i, Output = out, Digest = dg, Selector = sel\<rparr> kid \<longrightarrow>
       ensurePersistentKey_deps E c out dg kid i rest w2 = (e, w')) \<and>
    (\<not> HasLink (backend c) (store w1) pid \<lparr>Input = int i, Output = out, Digest = dg, Selector = sel\<rparr> kid \<longrightarrow>
       (\<exists>e3 w3. ensurePersistentKey E c p w2 = (e3, w3) \<and>
          (e3 \<noteq> None \<longrightarrow> e = e3 \<and> w' = w3) \<and>
          (e3 = None \<longrightarrow>
             (\<exists>e4 w4. backend_AddLink c pid \<lparr>Input = int i, Output = out, Digest = dg, Selector = sel\<rparr> kid w3 = (e4, w4) \<and>
                (e4 \<noteq> None \<longrightarrow> e = e4 \<and> w' = w4) \<and>
                (e4 = None \<longrightarrow> ensurePersistentKey_deps E c out dg kid i rest w4 = (e, w'))))))"
proof -
  let ?l = "\<lparr>Input = int i, Output = out, Digest = dg, Selector = sel\<rparr>"
  obtain pid w1 where g: "getID E c p w = (pid, w1)" by (cases "getID E c p w")
  obtain e3 w3 where p: "ensurePersistentKey E c p (w1\<lparr>calls := calls w1 @ [CallHasLink pid ?l kid]\<rparr>) = (e3, w3)"
    by (cases "ensurePersistentKey E c p (w1\<lparr>calls := calls w1 @ [CallHasLink pid ?l kid]\<rparr>)")
  obtain e4 w4 where a: "backend_AddLink c pid ?l kid w3 = (e4, w4)"
    by (cases "backend_AddLink c pid ?l kid w3")
  from assms g p a show ?thesis
    by (auto simp: backend_HasLink_def split: if_splits option.splits)
qed


lemma grows_keeps: "grows B w w' \<Longrightarrow> ids w x = Some v \<Longrightarrow> ids w' x = Some v"
  by (cases x) (simp add: grows_def)

lemma grows_link: "grows B w w' \<Longrightarrow> HasLink B (store w) p l t \<Longrightarrow> HasLink B (store w') p l t"
  by (simp add: grows_def)

lemma ensure_family_grows:
  "linkstore_ok (backend c) \<Longrightarrow> grows (backend c) w (snd (ensurePersistentKey E c k w))"
  "linkstore_ok (backend c) \<Longrightarrow>
     grows (backend c) w (snd (ensurePersistentKey_slots E c out dg kid i dss w))"
  "linkstore_ok (backend c) \<Longrightarrow>
     grows (backend c) w (snd (ensurePersistentKey_deps E c out dg kid i ds w))"
proof (induction E c k w and E c out dg kid i dss w and E c out dg kid i ds w
    rule: ensurePersistentKey_ensurePersistentKey_slots_ensurePersistentKey_deps.induct)
  case (1 E c k w)
  obtain kid w1 where g: "getID E c k w = (kid, w1)" by (cases "getID E c k w")
  then have "grows (backend c) w w1" by (rule getID_grows)
  moreover from 1(1)[OF g[symmetric] 1(2)]
  have "grows (backend c) w1 (snd (ensurePersistentKey_slots E c (output_idx k) (digest k) kid 0 (deps k) w1))" .
  ultimately have "grows (backend c) w
      (snd (ensurePersistentKey_slots E c (output_idx k) (digest k) kid 0 (deps k) w1))"
    by (rule grows_trans)
  with g show ?case by (simp add: ensurePersistentKey.simps)
next
  case (2 E c out dg kid i w)
  show ?case by (simp add: grows_refl)
next
  case (3 E c out dg kid i ds rest w)
  obtain e1 w1 where d: "ensurePersistentKey_deps E c out dg kid i ds w = (e1, w1)"
    by (cases "ensurePersistentKey_deps E c out dg kid i ds w")
  from 3(1)[OF 3(3)] d have a: "grows (backend c) w w1" by simp
  show ?case
  proof (cases e1)
    case None
    from 3(2)[OF d[symmetric] None 3(3)]
    have "grows (backend c) w1 (snd (ensurePersistentKey_slots E c out dg kid (Suc i) rest w1))" .
    with a have "grows (backend c) w (snd (ensurePersistentKey_slots E c out dg kid (Suc i) rest w1))"
      by (rule grows_trans)
    with d None show ?thesis by simp
  next
    case (Some e)
    with d a show ?thesis by simp
  qed
next
  case (4 E c out dg kid i w)
  show ?case by (simp add: grows_refl)
next
  case (5 E c out dg kid i p sel rest w)
  let ?l = "\<lparr>Input = int i, Output = out, Digest = dg, Selector = sel\<rparr>"
  note ok = 5(4)
  obtain pid w1 where g: "getID E c p w = (pid, w1)" by (cases "getID E c p w")
  obtain b w2 where h: "backend_HasLink c pid ?l kid w1 = (b, w2)"
    by (cases "backend_HasLink c pid ?l kid w1")
  from g have "grows (backend c) w w1" by (rule getID_grows)
  moreover from h have "grows (backend c) w1 w2" by (rule HasLink_grows)
  ultimately have g02: "grows (backend c) w w2" by (rule grows_trans)
  show ?case
  proof (cases b)
    case True
    then have bt: "b = True" by simp
    from 5(1)[OF g[symmetric] h[symmetric] bt ok]
    have "grows (backend c) w2 (snd (ensurePersistentKey_deps E c out dg kid i rest w2))" .
    with g02 have "grows (backend c) w (snd (ensurePersistentKey_deps E c out dg kid i rest w2))"
      by (rule grows_trans)
    with g h True show ?thesis by simp
  next
    case False
    then have bf: "b = False" by simp
    obtain e3 w3 where p: "ensurePersistentKey E c p w2 = (e3, w3)"
      by (cases "ensurePersistentKey E c p w2")
    from 5(2)[OF g[symmetric] h[symmetric] bf ok] p have "grows (backend c) w2 w3" by simp
    with g02 have g03: "grows (backend c) w w3" by (rule grows_trans)
    show ?thesis
    proof (cases e3)
      case (Some e)
      with g h False p g03 show ?thesis by simp
    next
      case None
      obtain e4 w4 where a: "backend_AddLink c pid ?l kid w3 = (e4, w4)"
        by (cases "backend_AddLink c pid ?l kid w3")
      from AddLink_grows[OF ok a] g03 have g04: "grows (backend c) w w4" by (blast intro: grows_trans)
      show ?thesis
      proof (cases e4)
        case (Some e)
        with g h False p None a g04 show ?thesis by simp
      next
        case e4: None
        from 5(3)[OF g[symmetric] h[symmetric] bf p[symmetric] None a[symmetric] e4 ok]
        have "grows (backend c) w4 (snd (ensurePersistentKey_deps E c out dg kid i rest w4))" .
        with g04 have "grows (backend c) w (snd (ensurePersistentKey_deps E c out dg kid i rest w4))"
          by (rule grows_trans)
        with g h False p None a e4 show ?thesis by simp
      qed
    qed
  qed
qed


lemma ensure_deps_grows:
  "linkstore_ok (backend c) \<Longrightarrow> ensurePersistentKey_deps E c out dg kid i ds w = (e, w') \<Longrightarrow>
     grows (backend c) w w'"
  using ensure_family_grows(3)[of c w E out dg kid i ds] by simp

lemma ensure_slots_grows:
  "linkstore_ok (backend c) \<Longrightarrow> ensurePersistentKey_slots E c out dg kid i dss w = (e, w') \<Longrightarrow>
     grows (backend c) w w'"
  using ensure_family_grows(2)[of c w E out dg kid i dss] by simp

lemma ensure_key_grows:
  "linkstore_ok (backend c) \<Longrightarrow> ensurePersistentKey E c k w = (e, w') \<Longrightarrow>
     grows (backend c) w w'"
  using ensure_family_grows(1)[of c w E k] by simp

lemma ensure_deps_links:
  assumes "linkstore_ok (backend c)"
    and "ensurePersistentKey_deps E c out dg kid i ds w = (None, w')"
    and "ps \<in> set ds"
  shows "\<exists>pid. ids w' (addr (fst ps), self c) = Some pid \<and>
           HasLink (backend c) (store w') pid
             \<lparr>Input = int i, Output = out, Digest = dg, Selector = snd ps\<rparr> kid"
  using assms(2,3)
proof (induction ds arbitrary: w)
  case Nil
  then show ?case by simp
next
  case (Cons a rest)
  note ok = assms(1)
  obtain p sel where a: "a = (p, sel)" by (cases a)
  let ?l = "\<lparr>Input = int i, Output = out, Digest = dg, Selector = sel\<rparr>"
  from ensure_deps_Cons[OF Cons.prems(1)[unfolded a]] obtain pid w1 w2 where
    g: "getID E c p w = (pid, w1)" and
    w2: "w2 = w1\<lparr>calls := calls w1 @ [CallHasLink pid ?l kid]\<rparr>" and
    yes: "HasLink (backend c) (store w1) pid ?l kid \<Longrightarrow>
       ensurePersistentKey_deps E c out dg kid i rest w2 = (None, w')" and
    no: "\<not> HasLink (backend c) (store w1) pid ?l kid \<Longrightarrow>
       (\<exists>e3 w3. ensurePersistentKey E c p w2 = (e3, w3) \<and>
          (e3 \<noteq> None \<longrightarrow> None = e3 \<and> w' = w3) \<and>
          (e3 = None \<longrightarrow>
             (\<exists>e4 w4. backend_AddLink c pid ?l kid w3 = (e4, w4) \<and>
                (e4 \<noteq> None \<longrightarrow> None = e4 \<and> w' = w4) \<and>
                (e4 = None \<longrightarrow> ensurePersistentKey_deps E c out dg kid i rest w4 = (None, w')))))"
    by blast
  from getID_step(2)[OF g] w2 have i2: "ids w2 (addr p, self c) = Some pid" by simp
  have "\<exists>wr. ensurePersistentKey_deps E c out dg kid i rest wr = (None, w') \<and>
          ids wr (addr p, self c) = Some pid \<and> HasLink (backend c) (store wr) pid ?l kid"
  proof (cases "HasLink (backend c) (store w1) pid ?l kid")
    case True
    with yes i2 w2 show ?thesis by auto
  next
    case False
    from no[OF False] obtain w3 w4 where
      p: "ensurePersistentKey E c p w2 = (None, w3)" and
      l: "backend_AddLink c pid ?l kid w3 = (None, w4)" and
      r: "ensurePersistentKey_deps E c out dg kid i rest w4 = (None, w')"
      by (metis option.exhaust)
    from ensure_key_grows[OF ok p] i2 have "ids w3 (addr p, self c) = Some pid"
      by (rule grows_keeps)
    with AddLink_grows[OF ok l] have "ids w4 (addr p, self c) = Some pid"
      by (rule grows_keeps)
    with r AddLink_links[OF ok l] show ?thesis by blast
  qed
  then obtain wr where
    r: "ensurePersistentKey_deps E c out dg kid i rest wr = (None, w')" and
    ir: "ids wr (addr p, self c) = Some pid" and
    lr: "HasLink (backend c) (store wr) pid ?l kid" by blast
  note gr = ensure_deps_grows[OF ok r]
  show ?case
  proof (cases "ps = a")
    case True
    from gr ir have "ids w' (addr p, self c) = Some pid" by (rule grows_keeps)
    moreover from gr lr have "HasLink (backend c) (store w') pid ?l kid" by (rule grows_link)
    ultimately show ?thesis using True a by simp
  next
    case False
    with Cons.prems(2) have "ps \<in> set rest" by simp
    with r show ?thesis by (rule Cons.IH)
  qed
qed

lemma ensure_slots_Cons:
  assumes "ensurePersistentKey_slots E c out dg kid i (ds # rest) w = (None, w')"
  shows "\<exists>w1. ensurePersistentKey_deps E c out dg kid i ds w = (None, w1) \<and>
           ensurePersistentKey_slots E c out dg kid (Suc i) rest w1 = (None, w')"
  using assms
  by (cases "ensurePersistentKey_deps E c out dg kid i ds w") (auto split: option.splits)

lemma ensure_slots_links:
  assumes "linkstore_ok (backend c)"
    and "ensurePersistentKey_slots E c out dg kid i dss w = (None, w')"
    and "j < length dss" and "ps \<in> set (dss ! j)"
  shows "\<exists>pid. ids w' (addr (fst ps), self c) = Some pid \<and>
           HasLink (backend c) (store w') pid
             \<lparr>Input = int (i + j), Output = out, Digest = dg, Selector = snd ps\<rparr> kid"
  using assms(2,3,4)
proof (induction dss arbitrary: i w j)
  case Nil
  then show ?case by simp
next
  case (Cons ds rest)
  note ok = assms(1)
  from ensure_slots_Cons[OF Cons.prems(1)] obtain w1 where
    d: "ensurePersistentKey_deps E c out dg kid i ds w = (None, w1)" and
    s: "ensurePersistentKey_slots E c out dg kid (Suc i) rest w1 = (None, w')" by blast
  show ?case
  proof (cases j)
    case 0
    with Cons.prems(3) have "ps \<in> set ds" by simp
    from ensure_deps_links[OF ok d this] obtain pid where
      a: "ids w1 (addr (fst ps), self c) = Some pid" and
      b: "HasLink (backend c) (store w1) pid
             \<lparr>Input = int i, Output = out, Digest = dg, Selector = snd ps\<rparr> kid" by blast
    note gr = ensure_slots_grows[OF ok s]
    from gr a have "ids w' (addr (fst ps), self c) = Some pid" by (rule grows_keeps)
    moreover from gr b have "HasLink (backend c) (store w') pid
             \<lparr>Input = int i, Output = out, Digest = dg, Selector = snd ps\<rparr> kid" by (rule grows_link)
    ultimately show ?thesis using 0 by simp
  next
    case (Suc j')
    with Cons.prems(2,3) have "j' < length rest" "ps \<in> set (rest ! j')" by simp_all
    from Cons.IH[OF s this] Suc show ?thesis by simp
  qed
qed

lemma ensure_links:
  assumes "linkstore_ok (backend c)" and "ensurePersistentKey E c k w = (None, w')"
  shows "fully_linked c k (store w') (ids w')"
proof -
  note ok = assms(1)
  obtain kid w1 where g: "getID E c k w = (kid, w1)" by (cases "getID E c k w")
  with assms(2) have s: "ensurePersistentKey_slots E c (output_idx k) (digest k) kid 0 (deps k) w1 = (None, w')"
    by (simp add: ensurePersistentKey.simps)
  from ensure_slots_grows[OF ok s] getID_step(2)[OF g]
  have ik: "ids w' (addr k, self c) = Some kid" by (rule grows_keeps)
  have "has_link c k (store w') (ids w') j ps" if "j < length (deps k)" "ps \<in> set (deps k ! j)" for j ps
    using ensure_slots_links[OF ok s that] ik by (auto simp: has_link_def)
  with ik show ?thesis by (simp add: fully_linked_def)
qed


lemma ensure_deps_checks:
  assumes "\<forall>ps \<in> set ds. \<exists>pid. ids w (addr (fst ps), self c) = Some pid \<and>
             HasLink (backend c) (store w) pid
               \<lparr>Input = int i, Output = out, Digest = dg, Selector = snd ps\<rparr> kid"
  shows "\<exists>cs. ensurePersistentKey_deps E c out dg kid i ds w = (None, w\<lparr>calls := calls w @ cs\<rparr>) \<and>
           list_all is_HasLink cs"
  using assms
proof (induction ds arbitrary: w)
  case Nil
  have "ensurePersistentKey_deps E c out dg kid i [] w = (None, w\<lparr>calls := calls w @ []\<rparr>)" by simp
  moreover have "list_all is_HasLink []" by simp
  ultimately show ?case by blast
next
  case (Cons a rest)
  obtain p sel where a: "a = (p, sel)" by (cases a)
  let ?l = "\<lparr>Input = int i, Output = out, Digest = dg, Selector = sel\<rparr>"
  from Cons.prems a obtain pid where
    ip: "ids w (addr p, self c) = Some pid" and hl: "HasLink (backend c) (store w) pid ?l kid"
    by auto
  let ?w2 = "w\<lparr>calls := calls w @ [CallHasLink pid ?l kid]\<rparr>"
  from ip have g: "getID E c p w = (pid, w)" by (rule getID_cached)
  from Cons.prems have "\<forall>ps \<in> set rest. \<exists>pid. ids ?w2 (addr (fst ps), self c) = Some pid \<and>
             HasLink (backend c) (store ?w2) pid
               \<lparr>Input = int i, Output = out, Digest = dg, Selector = snd ps\<rparr> kid"
    by simp
  from Cons.IH[OF this] obtain cs where
    r: "ensurePersistentKey_deps E c out dg kid i rest ?w2 = (None, ?w2\<lparr>calls := calls ?w2 @ cs\<rparr>)"
    and cs: "list_all is_HasLink cs" by blast
  from g hl r have "ensurePersistentKey_deps E c out dg kid i (a # rest) w =
      (None, w\<lparr>calls := calls w @ (CallHasLink pid ?l kid # cs)\<rparr>)"
    by (simp add: a backend_HasLink_def)
  moreover from cs have "list_all is_HasLink (CallHasLink pid ?l kid # cs)" by simp
  ultimately show ?case by blast
qed

lemma ensure_slots_checks:
  assumes "\<forall>j < length dss. \<forall>ps \<in> set (dss ! j). \<exists>pid. ids w (addr (fst ps), self c) = Some pid \<and>
             HasLink (backend c) (store w) pid
               \<lparr>Input = int (i + j), Output = out, Digest = dg, Selector = snd ps\<rparr> kid"
  shows "\<exists>cs. ensurePersistentKey_slots E c out dg kid i dss w = (None, w\<lparr>calls := calls w @ cs\<rparr>) \<and>
           list_all is_HasLink cs"
  using assms
proof (induction dss arbitrary: i w)
  case Nil
  have "ensurePersistentKey_slots E c out dg kid i [] w = (None, w\<lparr>calls := calls w @ []\<rparr>)" by simp
  moreover have "list_all is_HasLink []" by simp
  ultimately show ?case by blast
next
  case (Cons ds rest)
  have "\<forall>ps \<in> set ds. \<exists>pid. ids w (addr (fst ps), self c) = Some pid \<and>
             HasLink (backend c) (store w) pid
               \<lparr>Input = int i, Output = out, Digest = dg, Selector = snd ps\<rparr> kid"
  proof
    fix ps assume "ps \<in> set ds"
    then have "0 < length (ds # rest)" "ps \<in> set ((ds # rest) ! 0)" by simp_all
    with Cons.prems have "\<exists>pid. ids w (addr (fst ps), self c) = Some pid \<and>
             HasLink (backend c) (store w) pid
               \<lparr>Input = int (i + 0), Output = out, Digest = dg, Selector = snd ps\<rparr> kid" by blast
    then show "\<exists>pid. ids w (addr (fst ps), self c) = Some pid \<and>
             HasLink (backend c) (store w) pid
               \<lparr>Input = int i, Output = out, Digest = dg, Selector = snd ps\<rparr> kid" by simp
  qed
  from ensure_deps_checks[OF this] obtain cs1 where
    d: "ensurePersistentKey_deps E c out dg kid i ds w = (None, w\<lparr>calls := calls w @ cs1\<rparr>)"
    and cs1: "list_all is_HasLink cs1" by blast
  let ?w1 = "w\<lparr>calls := calls w @ cs1\<rparr>"
  have "\<forall>j < length rest. \<forall>ps \<in> set (rest ! j). \<exists>pid. ids ?w1 (addr (fst ps), self c) = Some pid \<and>
             HasLink (backend c) (store ?w1) pid
               \<lparr>Input = int (Suc i + j), Output = out, Digest = dg, Selector = snd ps\<rparr> kid"
  proof (intro allI impI ballI)
    fix j ps assume "j < length rest" "ps \<in> set (rest ! j)"
    then have "Suc j < length (ds # rest)" "ps \<in> set ((ds # rest) ! Suc j)" by simp_all
    with Cons.prems have "\<exists>pid. ids w (addr (fst ps), self c) = Some pid \<and>
             HasLink (backend c) (store w) pid
               \<lparr>Input = int (i + Suc j), Output = out, Digest = dg, Selector = snd ps\<rparr> kid" by blast
    then show "\<exists>pid. ids ?w1 (addr (fst ps), self c) = Some pid \<and>
             HasLink (backend c) (store ?w1) pid
               \<lparr>Input = int (Suc i + j), Output = out, Digest = dg, Selector = snd ps\<rparr> kid" by simp
  qed
  from Cons.IH[OF this] obtain cs2 where
    s: "ensurePersistentKey_slots E c out dg kid (Suc i) rest ?w1 = (None, ?w1\<lparr>calls := calls ?w1 @ cs2\<rparr>)"
    and cs2: "list_all is_HasLink cs2" by blast
  from d s have "ensurePersistentKey_slots E c out dg kid i (ds # rest) w =
      (None, w\<lparr>calls := calls w @ (cs1 @ cs2)\<rparr>)" by simp
  moreover from cs1 cs2 have "list_all is_HasLink (cs1 @ cs2)" by simp
  ultimately show ?case by blast
qed

lemma ensure_checks:
  assumes "fully_linked c k (store w) (ids w)"
  shows "\<exists>cs. ensurePersistentKey E c k w = (None, w\<lparr>calls := calls w @ cs\<rparr>) \<and>
           list_all is_HasLink cs"
proof -
  from assms obtain kid where ik: "ids w (addr k, self c) = Some kid"
    by (auto simp: fully_linked_def)
  then have g: "getID E c k w = (kid, w)" by (rule getID_cached)
  have "\<forall>j < length (deps k). \<forall>ps \<in> set (deps k ! j). \<exists>pid. ids w (addr (fst ps), self c) = Some pid \<and>
             HasLink (backend c) (store w) pid
               \<lparr>Input = int (0 + j), Output = output_idx k, Digest = digest k, Selector = snd ps\<rparr> kid"
  proof (intro allI impI ballI)
    fix j ps assume "j < length (deps k)" "ps \<in> set (deps k ! j)"
    with assms have "has_link c k (store w) (ids w) j ps" by (simp add: fully_linked_def)
    with ik show "\<exists>pid. ids w (addr (fst ps), self c) = Some pid \<and>
             HasLink (backend c) (store w) pid
               \<lparr>Input = int (0 + j), Output = output_idx k, Digest = digest k, Selector = snd ps\<rparr> kid"
      by (cases "ids w (addr (fst ps), self c)") (simp_all add: has_link_def)
  qed
  from ensure_slots_checks[OF this] g show ?thesis by (simp add: ensurePersistentKey.simps)
qed

text \<open>
  Claim C4. On a key that is fully linked (the key and its parents have their
  identifiers, and every link from a parent to the key is in the storage),
  \<^verbatim>\<open>ensurePersistentKey\<close> returns no error and changes nothing: the only calls it makes on
  the storage are \<^verbatim>\<open>HasLink\<close> calls, so there is no \<^verbatim>\<open>AddLink\<close>. A call that returns no
  error leaves the key fully linked, the storage keeping the links it is given; so a
  second call right after it makes only \<^verbatim>\<open>HasLink\<close> calls too.
\<close>

theorem ensurePersistentKey_idempotent:
  "(fully_linked c k (store w) (ids w) \<longrightarrow>
      (\<exists>cs. ensurePersistentKey E c k w = (None, w\<lparr>calls := calls w @ cs\<rparr>) \<and>
            list_all is_HasLink cs)) \<and>
   (linkstore_ok (backend c) \<and> ensurePersistentKey E c k w = (None, w1) \<longrightarrow>
      (\<exists>cs. ensurePersistentKey E c k w1 = (None, w1\<lparr>calls := calls w1 @ cs\<rparr>) \<and>
            list_all is_HasLink cs))"
  using ensure_checks ensure_links by blast


lemma mem_linkstore_ok: "linkstore_ok (backend mem_manager)"
  by (auto simp: linkstore_ok_def mem_manager_def mem_backend_def split: if_splits)

theorem ensurePersistentKey_idempotent_witness:
  "linkstore_ok (backend mem_manager) \<and>
   fst (ensurePersistentKey env0 mem_manager key_c (world0 mem_empty)) = None \<and>
   mem_links (store (snd (ensurePersistentKey env0 mem_manager key_c (world0 mem_empty)))) =
     [(''a'', \<lparr>Input = 0, Output = 0, Digest = ''sha256:opC'', Selector = ''s1''\<rparr>, ''id0''),
      (''b'', \<lparr>Input = 1, Output = 0, Digest = ''sha256:opC'', Selector = ''s2''\<rparr>, ''id0'')] \<and>
   fully_linked mem_manager key_c
     (store (snd (ensurePersistentKey env0 mem_manager key_c (world0 mem_empty))))
     (ids (snd (ensurePersistentKey env0 mem_manager key_c (world0 mem_empty)))) \<and>
   (\<exists>cs. ensurePersistentKey env0 mem_manager key_c
            (snd (ensurePersistentKey env0 mem_manager key_c (world0 mem_empty))) =
          (None, (snd (ensurePersistentKey env0 mem_manager key_c (world0 mem_empty)))
                   \<lparr>calls := calls (snd (ensurePersistentKey env0 mem_manager key_c (world0 mem_empty))) @ cs\<rparr>) \<and>
          list_all is_HasLink cs)"
proof -
  let ?W1 = "snd (ensurePersistentKey env0 mem_manager key_c (world0 mem_empty))"
  have e: "fst (ensurePersistentKey env0 mem_manager key_c (world0 mem_empty)) = None"
    by code_simp
  then have f: "ensurePersistentKey env0 mem_manager key_c (world0 mem_empty) = (None, ?W1)"
    by (metis prod.collapse)
  have l: "mem_links (store ?W1) =
     [(''a'', \<lparr>Input = 0, Output = 0, Digest = ''sha256:opC'', Selector = ''s1''\<rparr>, ''id0''),
      (''b'', \<lparr>Input = 1, Output = 0, Digest = ''sha256:opC'', Selector = ''s2''\<rparr>, ''id0'')]"
    by code_simp
  note ok = mem_linkstore_ok
  have fl: "fully_linked mem_manager key_c (store ?W1) (ids ?W1)"
    using ok f by (rule ensure_links)
  from ensurePersistentKey_idempotent[of mem_manager key_c ?W1 env0 ?W1] fl
  have "\<exists>cs. ensurePersistentKey env0 mem_manager key_c ?W1 = (None, ?W1\<lparr>calls := calls ?W1 @ cs\<rparr>) \<and>
          list_all is_HasLink cs" by blast
  moreover
  from ensurePersistentKey_idempotent[of mem_manager key_c "world0 mem_empty" env0 ?W1] ok f
  have "\<exists>cs. ensurePersistentKey env0 mem_manager key_c ?W1 = (None, ?W1\<lparr>calls := calls ?W1 @ cs\<rparr>) \<and>
          list_all is_HasLink cs" by blast
  ultimately show ?thesis using ok e l fl by blast
qed

section \<open>Query\<close>

lemma pick_order_Nil: "pick_order ns [] = []"
  by (cases ns) simp_all

text \<open>
  Claim C7. With an empty \<^verbatim>\<open>deps\<close>, \<^verbatim>\<open>Query\<close> asks the storage whether the root identifier
  \<^verbatim>\<open>rootKey(dgst, output)\<close> exists. If it does, the result is one key, with that identifier
  as its \<^verbatim>\<open>ID\<close>, no dependencies, the digest and the output, and the key resolves to the
  identifier. If it does not, the result is empty with no error, and nothing but the call
  log and the count of map ranges has changed: no identifier is handed out, no key is
  allocated, and the storage is as before (its only call is \<^verbatim>\<open>Exists\<close>).
\<close>

theorem Query_root:
  "(Exists (backend c) (store w) (rootKey E dgst out) \<longrightarrow>
      (\<exists>k w'. Query E c [] inp dgst out w = (Inr [k], w') \<and>
         ID k = rootKey E dgst out \<and> deps k = [] \<and> digest k = dgst \<and> output_idx k = out \<and>
         getID E c k w' = (rootKey E dgst out, w') \<and>
         store w' = store w \<and> minted w' = minted w \<and>
         calls w' = calls w @ [CallExists (rootKey E dgst out)])) \<and>
   (\<not> Exists (backend c) (store w) (rootKey E dgst out) \<longrightarrow>
      (\<exists>w'. Query E c [] inp dgst out w = (Inr [], w') \<and>
         store w' = store w \<and> minted w' = minted w \<and> ids w' = ids w \<and>
         allocated w' = allocated w \<and> released w' = released w \<and>
         calls w' = calls w @ [CallExists (rootKey E dgst out)]))"
proof -
  let ?w2 = "w\<lparr>ranged := Suc (ranged w)\<rparr>"
  let ?w4 = "?w2\<lparr>calls := calls ?w2 @ [CallExists (rootKey E dgst out)]\<rparr>"
  have q: "Query E c [] inp dgst out w =
     (if Exists (backend c) (store w) (rootKey E dgst out)
      then (case newRootKey E c dgst out ?w4 of (k, w5) \<Rightarrow> (Inr [k], w5))
      else (Inr [], ?w4))"
    by (simp add: Query_def mapRange_def pick_order_Nil backend_Exists_def)
  show ?thesis
  proof (cases "Exists (backend c) (store w) (rootKey E dgst out)")
    case True
    obtain k w5 where n: "newRootKey E c dgst out ?w4 = (k, w5)"
      by (cases "newRootKey E c dgst out ?w4")
    from newRootKey_resolves[OF n] have
      "ID k = rootKey E dgst out" "deps k = []" "digest k = dgst" "output_idx k = out"
      "getID E c k w5 = (rootKey E dgst out, w5)" by simp_all
    moreover from n have "store w5 = store w" "minted w5 = minted w"
      "calls w5 = calls w @ [CallExists (rootKey E dgst out)]"
      by (auto simp: newRootKey_def newKeyWithID_def Let_def)
    moreover from q True n have "Query E c [] inp dgst out w = (Inr [k], w5)" by simp
    ultimately show ?thesis using True by blast
  next
    case False
    with q show ?thesis by simp
  qed
qed

theorem Query_root_witness:
  "Exists (backend mem_manager) (store (world0 mem_root)) (rootKey env0 ''sha256:opA'' 0) \<and>
   fst (Query env0 mem_manager [] 0 ''sha256:opA'' 0 (world0 mem_root)) =
     Inr [CacheKey 100 ''sha256:sha256:opA@0'' [] ''sha256:opA'' 0] \<and>
   \<not> Exists (backend mem_manager) (store (world0 mem_empty)) (rootKey env0 ''sha256:opA'' 0) \<and>
   fst (Query env0 mem_manager [] 0 ''sha256:opA'' 0 (world0 mem_empty)) = Inr [] \<and>
   store (snd (Query env0 mem_manager [] 0 ''sha256:opA'' 0 (world0 mem_empty))) = mem_empty \<and>
   minted (snd (Query env0 mem_manager [] 0 ''sha256:opA'' 0 (world0 mem_empty))) = 0"
proof -
  have a: "Exists (backend mem_manager) (store (world0 mem_root)) (rootKey env0 ''sha256:opA'' 0)"
    by code_simp
  have b: "\<not> Exists (backend mem_manager) (store (world0 mem_empty)) (rootKey env0 ''sha256:opA'' 0)"
    by code_simp
  have c: "fst (Query env0 mem_manager [] 0 ''sha256:opA'' 0 (world0 mem_root)) =
     Inr [CacheKey 100 ''sha256:sha256:opA@0'' [] ''sha256:opA'' 0]"
    by code_simp
  from Query_root[of mem_manager "world0 mem_empty" env0 "''sha256:opA''" 0 0] b
  have "fst (Query env0 mem_manager [] 0 ''sha256:opA'' 0 (world0 mem_empty)) = Inr []"
    "store (snd (Query env0 mem_manager [] 0 ''sha256:opA'' 0 (world0 mem_empty))) = store (world0 mem_empty)"
    "minted (snd (Query env0 mem_manager [] 0 ''sha256:opA'' 0 (world0 mem_empty))) = minted (world0 mem_empty)"
    by auto
  moreover from Query_root[of mem_manager "world0 mem_root" env0 "''sha256:opA''" 0 0] a
  have "\<exists>k. fst (Query env0 mem_manager [] 0 ''sha256:opA'' 0 (world0 mem_root)) = Inr [k]" by auto
  ultimately show ?thesis using a b c by (simp add: world0_def)
qed

lemma preserved_refl: "preserved w w"
  by (simp add: preserved_def)

lemma preserved_trans: "preserved w w1 \<Longrightarrow> preserved w1 w2 \<Longrightarrow> preserved w w2"
  by (auto simp: preserved_def intro: prefix_order.trans)

lemma new_calls_later:
  assumes "prefix (calls w) (calls w1)" and "prefix (calls w1) (calls w2)"
  shows "set (new_calls w1 w2) \<subseteq> set (new_calls w w2)"
    and "set (new_calls w w1) \<subseteq> set (new_calls w w2)"
proof -
  from assms obtain a b where a: "calls w1 = calls w @ a" and b: "calls w2 = calls w1 @ b"
    by (auto simp: prefix_def)
  then show "set (new_calls w1 w2) \<subseteq> set (new_calls w w2)"
    "set (new_calls w w1) \<subseteq> set (new_calls w w2)"
    by (auto simp: new_calls_def)
qed

lemma resolved_more_preserved: "resolved_more w w' \<Longrightarrow> preserved w w'"
  by (auto simp: preserved_def resolved_more_def)

lemma newKeyWithID_preserved: "newKeyWithID c i dgst out w = (k, w') \<Longrightarrow> preserved w w'"
  by (auto simp: newKeyWithID_def Let_def preserved_def)

lemma newKeyWithID_key:
  "newKeyWithID c i dgst out w = (k, w') \<Longrightarrow>
     addr k < allocated w' \<and> ids w' (addr k, self c) = Some i"
  by (auto simp: newKeyWithID_def Let_def)

lemma keys_ok_preserved: "keys_ok c allRes w \<Longrightarrow> preserved w w' \<Longrightarrow> keys_ok c allRes w'"
  by (fastforce simp: keys_ok_def preserved_def)

lemma discovered_preserved:
  assumes "preserved w w'" and "addr (fst d) < allocated w" and "ids w (addr (fst d), self c) \<noteq> None"
  shows "discovered c inp dgst out s (ids w') d = discovered c inp dgst out s (ids w) d"
    and "ids w' (addr (fst d), self c) \<noteq> None"
proof -
  from assms(3) obtain pid where p: "ids w (addr (fst d), self c) = Some pid" by blast
  with assms(1,2) have p': "ids w' (addr (fst d), self c) = Some pid" by (simp add: preserved_def)
  from p p' show "discovered c inp dgst out s (ids w') d = discovered c inp dgst out s (ids w) d"
    by (simp add: discovered_def)
  from p' show "ids w' (addr (fst d), self c) \<noteq> None" by simp
qed

lemma deps_ok_preserved:
  assumes "deps_ok c inp dgst out allDeps w" and "preserved w w'"
  shows "deps_ok c inp dgst out allDeps w'"
  unfolding deps_ok_def
proof
  fix e assume "e \<in> set allDeps"
  with assms(1) have a: "addr (fst (fst e)) < allocated w"
    and b: "ids w (addr (fst (fst e)), self c) \<noteq> None"
    and s: "set (snd e) = discovered c inp dgst out (store w) (ids w) (fst e)"
    by (auto simp: deps_ok_def)
  from assms(2) have st: "store w' = store w" and al: "allocated w \<le> allocated w'"
    by (simp_all add: preserved_def)
  from discovered_preserved(1)[OF assms(2) a b] discovered_preserved(2)[OF assms(2) a b] s st a al
  show "addr (fst (fst e)) < allocated w' \<and> ids w' (addr (fst (fst e)), self c) \<noteq> None \<and>
        set (snd e) = discovered c inp dgst out (store w') (ids w') (fst e)"
    by simp
qed

lemma Query_callback_facts:
  assumes "Query_callback c dgst out found res allRes w = (res', allRes', w')"
    and "keys_ok c allRes w"
  shows "preserved w w' \<and> keys_ok c allRes' w' \<and> set res' = set res \<union> set found \<and>
         fst ` set allRes' = fst ` set allRes \<union> set found"
  using assms
proof (induction found arbitrary: res allRes w)
  case Nil
  then show ?case by (simp add: preserved_refl)
next
  case (Cons i found)
  show ?case
  proof (cases "map_of allRes i")
    case (Some k0)
    then have mem: "i \<in> fst ` set allRes" by (metis map_of_eq_None_iff option.distinct(1))
    from Cons.prems(1) Some
    have "Query_callback c dgst out found (List.insert i res) allRes w = (res', allRes', w')" by simp
    from Cons.IH[OF this Cons.prems(2)] mem show ?thesis by auto
  next
    case None
    then have nmem: "i \<notin> fst ` set allRes" by (simp add: map_of_eq_None_iff)
    obtain k w1 where n: "newKeyWithID c i dgst out w = (k, w1)" by (cases "newKeyWithID c i dgst out w")
    note p1 = newKeyWithID_preserved[OF n]
    from keys_ok_preserved[OF Cons.prems(2) p1] newKeyWithID_key[OF n]
    have ok1: "keys_ok c (allRes @ [(i, k)]) w1" by (auto simp: keys_ok_def)
    from Cons.prems(1) None n
    have "Query_callback c dgst out found (List.insert i res) (allRes @ [(i, k)]) w1 = (res', allRes', w')"
      by simp
    from Cons.IH[OF this ok1] p1 show ?thesis by (auto intro: preserved_trans)
  qed
qed


lemma linking_refl: "linking B w w"
  by (simp add: linking_def)

lemma linking_trans: "linking B w w1 \<Longrightarrow> linking B w1 w2 \<Longrightarrow> linking B w w2"
  by (auto simp: linking_def intro: prefix_order.trans)

lemma link_added_later:
  assumes "linking B w w1" and "linking B w1 w2"
  shows "link_added c inp dgst out (new_calls w1 w2) (ids w2) d x \<Longrightarrow>
           link_added c inp dgst out (new_calls w w2) (ids w2) d x"
    and "link_added c inp dgst out (new_calls w w1) (ids w1) d x \<Longrightarrow>
           link_added c inp dgst out (new_calls w w2) (ids w2) d x"
proof -
  from assms have p: "prefix (calls w) (calls w1)" "prefix (calls w1) (calls w2)"
    and i: "ids w2 = ids w1" by (simp_all add: linking_def)
  note n = new_calls_later[OF p]
  show "link_added c inp dgst out (new_calls w1 w2) (ids w2) d x \<Longrightarrow>
           link_added c inp dgst out (new_calls w w2) (ids w2) d x"
    using n(1) by (auto simp: link_added_def split: option.splits)
  show "link_added c inp dgst out (new_calls w w1) (ids w1) d x \<Longrightarrow>
           link_added c inp dgst out (new_calls w w2) (ids w2) d x"
    using n(2) i by (auto simp: link_added_def split: option.splits)
qed

lemma AddLink_linking:
  "linkstore_ok (backend c) \<Longrightarrow> backend_AddLink c i l t w = (e, w') \<Longrightarrow> linking (backend c) w w'"
  by (auto simp: backend_AddLink_def linking_def linkstore_ok_def split: prod.splits)

lemma AddLink_call:
  "backend_AddLink c i l t w = (e, w') \<Longrightarrow> CallAddLink i l t \<in> set (new_calls w w')"
  by (auto simp: backend_AddLink_def new_calls_def split: prod.splits)

lemma linked_from_linking:
  "linking (backend c) w w' \<Longrightarrow> linked_from c inp dgst out (store w) (ids w) d x \<Longrightarrow>
     linked_from c inp dgst out (store w') (ids w') d x"
  by (auto simp: linking_def linked_from_def split: option.splits)

lemma Query_walk_facts:
  assumes "Query_walk E c inp dgst out dps acc allRes w = (Inr (allDeps, allRes'), w')"
    and "keys_ok c allRes w" and "deps_ok c inp dgst out acc w"
    and "\<forall>d \<in> set dps. addr (fst d) < allocated w"
    and "\<forall>e \<in> set acc. set (snd e) \<subseteq> fst ` set allRes"
  shows "preserved w w' \<and> keys_ok c allRes' w' \<and> deps_ok c inp dgst out allDeps w' \<and>
         map fst allDeps = map fst acc @ dps \<and>
         (\<forall>e \<in> set allDeps. set (snd e) \<subseteq> fst ` set allRes')"
  using assms
proof (induction dps arbitrary: acc allRes w)
  case Nil
  then show ?case by (simp add: preserved_refl)
next
  case (Cons a rest)
  obtain k sel where a: "a = (k, sel)" by (cases a)
  let ?l = "\<lparr>Input = inp, Output = out, Digest = dgst, Selector = sel\<rparr>"
  obtain pid w1 where g: "getID E c k w = (pid, w1)" by (cases "getID E c k w")
  obtain found err w2 where b: "backend_WalkLinks c pid ?l w1 = ((found, err), w2)"
    by (cases "backend_WalkLinks c pid ?l w1") auto
  obtain res allRes1 w3 where q: "Query_callback c dgst out found [] allRes w2 = (res, allRes1, w3)"
    by (cases "Query_callback c dgst out found [] allRes w2") auto
  from Cons.prems(1) a g b q have err: "err = None"
    by (cases err) simp_all
  with Cons.prems(1) a g b q
  have r: "Query_walk E c inp dgst out rest (acc @ [((k, sel), res)]) allRes1 w3 = (Inr (allDeps, allRes'), w')"
    by simp
  from getID_step[OF g] have r01: "resolved_more w w1" and i1: "ids w1 (addr k, self c) = Some pid"
    by simp_all
  from b have r12: "resolved_more w1 w2" by (rule resolved_more_WalkLinks)
  from r01 r12 have p02: "preserved w w2"
    by (blast intro: resolved_more_preserved resolved_more_trans)
  from keys_ok_preserved[OF Cons.prems(2) p02] have k2: "keys_ok c allRes w2" .
  from Query_callback_facts[OF q k2] have
    p23: "preserved w2 w3" and k3: "keys_ok c allRes1 w3" and sres: "set res = set found"
    and cov: "fst ` set allRes1 = fst ` set allRes \<union> set found" by simp_all
  from p02 p23 have p03: "preserved w w3" by (rule preserved_trans)
  from Cons.prems(4) a have ak: "addr k < allocated w" by simp
  from r12 i1 have i2: "ids w2 (addr k, self c) = Some pid" by (rule resolved_more_keeps)
  from r01 r12 have al2: "allocated w2 = allocated w" by (simp add: resolved_more_def)
  from p23 i2 ak al2 have i3: "ids w3 (addr k, self c) = Some pid" by (simp add: preserved_def)
  from p03 have al3: "allocated w \<le> allocated w3" and st3: "store w3 = store w"
    by (simp_all add: preserved_def)
  from b r01 have wl: "WalkLinks (backend c) (store w) pid ?l = (found, err)"
    by (auto simp: backend_WalkLinks_def resolved_more_store)
  have new: "set res = discovered c inp dgst out (store w3) (ids w3) (k, sel)"
    using sres i3 wl st3 by (simp add: discovered_def)
  from deps_ok_preserved[OF Cons.prems(3) p03] new i3 ak al3
  have d3: "deps_ok c inp dgst out (acc @ [((k, sel), res)]) w3"
    by (auto simp: deps_ok_def)
  from Cons.prems(4) al3 have a3: "\<forall>d \<in> set rest. addr (fst d) < allocated w3" by auto
  from Cons.prems(5) cov sres
  have c3: "\<forall>e \<in> set (acc @ [((k, sel), res)]). set (snd e) \<subseteq> fst ` set allRes1" by auto
  from Cons.IH[OF r k3 d3 a3 c3] p03 a show ?case by (auto intro: preserved_trans)
qed

lemma Query_link_deps_facts:
  assumes "linkstore_ok (backend c)"
    and "Query_link_deps E c inp dgst out i key allDeps w = (None, w')"
    and "ids w (addr key, self c) = Some i"
    and "\<forall>e \<in> set allDeps. ids w (addr (fst (fst e)), self c) \<noteq> None"
  shows "linking (backend c) w w' \<and>
         (\<forall>e \<in> set allDeps. i \<notin> set (snd e) \<longrightarrow>
            linked_from c inp dgst out (store w') (ids w') (fst e) i \<and>
            link_added c inp dgst out (new_calls w w') (ids w') (fst e) i)"
  using assms(2,3,4)
proof (induction allDeps arbitrary: w)
  case Nil
  then show ?case by (simp add: linking_refl)
next
  case (Cons a rest)
  note ok = assms(1)
  obtain k sel res where a: "a = ((k, sel), res)" by (cases a) auto
  let ?l = "\<lparr>Input = inp, Output = out, Digest = dgst, Selector = sel\<rparr>"
  show ?case
  proof (cases "i \<in> set res")
    case True
    with Cons.prems(1) a have "Query_link_deps E c inp dgst out i key rest w = (None, w')" by simp
    from Cons.IH[OF this Cons.prems(2)] Cons.prems(3) True a show ?thesis by simp
  next
    case False
    from Cons.prems(3) a obtain dk where dk: "ids w (addr k, self c) = Some dk" by auto
    then have g1: "getID E c k w = (dk, w)" by (rule getID_cached)
    from Cons.prems(2) have g2: "getID E c key w = (i, w)" by (rule getID_cached)
    obtain e w3 where l: "backend_AddLink c dk ?l i w = (e, w3)"
      by (cases "backend_AddLink c dk ?l i w")
    from Cons.prems(1) a False g1 g2 l have e: "e = None" by (cases e) simp_all
    with Cons.prems(1) a False g1 g2 l
    have r: "Query_link_deps E c inp dgst out i key rest w3 = (None, w')" by simp
    note l3 = AddLink_linking[OF ok l]
    from l3 Cons.prems(2,3) have
      "ids w3 (addr key, self c) = Some i"
      "\<forall>e \<in> set rest. ids w3 (addr (fst (fst e)), self c) \<noteq> None"
      by (simp_all add: linking_def)
    from Cons.IH[OF r this] have l3': "linking (backend c) w3 w'" and
      rest: "\<forall>e \<in> set rest. i \<notin> set (snd e) \<longrightarrow>
            linked_from c inp dgst out (store w') (ids w') (fst e) i \<and>
            link_added c inp dgst out (new_calls w3 w') (ids w') (fst e) i" by simp_all
    from rest link_added_later(1)[OF l3 l3']
    have rest': "\<forall>e \<in> set rest. i \<notin> set (snd e) \<longrightarrow>
            linked_from c inp dgst out (store w') (ids w') (fst e) i \<and>
            link_added c inp dgst out (new_calls w w') (ids w') (fst e) i" by blast
    from AddLink_links[OF ok l[unfolded e]] dk l3
    have "linked_from c inp dgst out (store w3) (ids w3) (k, sel) i"
      by (simp add: linked_from_def linking_def)
    with l3' have hd1: "linked_from c inp dgst out (store w') (ids w') (k, sel) i"
      by (rule linked_from_linking)
    from AddLink_call[OF l] dk l3
    have "link_added c inp dgst out (new_calls w w3) (ids w3) (k, sel) i"
      by (simp add: link_added_def linking_def)
    with link_added_later(2)[OF l3 l3']
    have hd2: "link_added c inp dgst out (new_calls w w') (ids w') (k, sel) i" by blast
    from l3 l3' have "linking (backend c) w w'" by (rule linking_trans)
    with rest' hd1 hd2 a show ?thesis by simp
  qed
qed

lemma Query_link_facts:
  assumes "linkstore_ok (backend c)"
    and "Query_link E c inp dgst out entries allDeps w = (None, w')"
    and "\<forall>en \<in> set entries. ids w (addr (snd en), self c) = Some (fst en)"
    and "\<forall>e \<in> set allDeps. ids w (addr (fst (fst e)), self c) \<noteq> None"
  shows "linking (backend c) w w' \<and>
         (\<forall>en \<in> set entries. \<forall>e \<in> set allDeps. fst en \<notin> set (snd e) \<longrightarrow>
            linked_from c inp dgst out (store w') (ids w') (fst e) (fst en) \<and>
            link_added c inp dgst out (new_calls w w') (ids w') (fst e) (fst en))"
  using assms(2,3,4)
proof (induction entries arbitrary: w)
  case Nil
  then show ?case by (simp add: linking_refl)
next
  case (Cons a rest)
  note ok = assms(1)
  obtain i key where a: "a = (i, key)" by (cases a)
  obtain e w1 where d: "Query_link_deps E c inp dgst out i key allDeps w = (e, w1)"
    by (cases "Query_link_deps E c inp dgst out i key allDeps w")
  from Cons.prems(1) a d have e: "e = None" by (cases e) simp_all
  with Cons.prems(1) a d have r: "Query_link E c inp dgst out rest allDeps w1 = (None, w')" by simp
  from Cons.prems(2) a have ik: "ids w (addr key, self c) = Some i" by simp
  from Query_link_deps_facts[OF ok d[unfolded e] ik Cons.prems(3)] have
    l1: "linking (backend c) w w1" and
    hd: "\<forall>e \<in> set allDeps. i \<notin> set (snd e) \<longrightarrow>
            linked_from c inp dgst out (store w1) (ids w1) (fst e) i \<and>
            link_added c inp dgst out (new_calls w w1) (ids w1) (fst e) i" by simp_all
  from l1 Cons.prems(2,3) have
    "\<forall>en \<in> set rest. ids w1 (addr (snd en), self c) = Some (fst en)"
    "\<forall>e \<in> set allDeps. ids w1 (addr (fst (fst e)), self c) \<noteq> None"
    by (simp_all add: linking_def)
  from Cons.IH[OF r this] have l2: "linking (backend c) w1 w'" and
    tl: "\<forall>en \<in> set rest. \<forall>e \<in> set allDeps. fst en \<notin> set (snd e) \<longrightarrow>
            linked_from c inp dgst out (store w') (ids w') (fst e) (fst en) \<and>
            link_added c inp dgst out (new_calls w1 w') (ids w') (fst e) (fst en)" by simp_all
  from tl link_added_later(1)[OF l1 l2]
  have tl': "\<forall>en \<in> set rest. \<forall>e \<in> set allDeps. fst en \<notin> set (snd e) \<longrightarrow>
            linked_from c inp dgst out (store w') (ids w') (fst e) (fst en) \<and>
            link_added c inp dgst out (new_calls w w') (ids w') (fst e) (fst en)" by blast
  from hd l2 link_added_later(2)[OF l1 l2]
  have hd': "\<forall>e \<in> set allDeps. i \<notin> set (snd e) \<longrightarrow>
            linked_from c inp dgst out (store w') (ids w') (fst e) i \<and>
            link_added c inp dgst out (new_calls w w') (ids w') (fst e) i"
    by (blast intro: linked_from_linking)
  from l1 l2 have "linking (backend c) w w'" by (rule linking_trans)
  with tl' hd' a show ?case by simp
qed

lemma Query_success:
  assumes "Query E c dps inp dgst out w = (Inr keys, w')" and "dps \<noteq> []"
  shows "\<exists>allDeps allRes w1 entries w3 entries'.
           Query_walk E c inp dgst out dps [] [] w = (Inr (allDeps, allRes), w1) \<and>
           mapRange E allRes w1 = (entries, w1\<lparr>ranged := Suc (ranged w1)\<rparr>) \<and>
           Query_link E c inp dgst out entries allDeps (w1\<lparr>ranged := Suc (ranged w1)\<rparr>) = (None, w3) \<and>
           mapRange E allRes w3 = (entries', w') \<and> keys = map snd entries'"
proof -
  obtain r w1 where qw: "Query_walk E c inp dgst out dps [] [] w = (r, w1)"
    by (cases "Query_walk E c inp dgst out dps [] [] w")
  from assms(1) qw obtain allDeps allRes where r: "r = Inr (allDeps, allRes)"
    by (cases r) (auto simp: Query_def)
  obtain entries w2 where m: "mapRange E allRes w1 = (entries, w2)" by (cases "mapRange E allRes w1")
  then have w2: "w2 = w1\<lparr>ranged := Suc (ranged w1)\<rparr>" by (auto simp: mapRange_def)
  obtain e w3 where l: "Query_link E c inp dgst out entries allDeps w2 = (e, w3)"
    by (cases "Query_link E c inp dgst out entries allDeps w2")
  from assms(1) qw r m l have e: "e = None" by (cases e) (simp_all add: Query_def)
  obtain entries' w4 where m': "mapRange E allRes w3 = (entries', w4)" by (cases "mapRange E allRes w3")
  from assms qw r m l e m' have "keys = map snd entries'" "w' = w4" by (simp_all add: Query_def)
  with qw r m w2 l e m' show ?thesis by blast
qed

text \<open>
  Claim C5. After a \<^verbatim>\<open>Query\<close> with a non-empty \<^verbatim>\<open>deps\<close> has returned without error, every
  identifier that the walk from some dependency \<open>d\<close> hands over is linked, in the
  storage, from every dependency \<open>d'\<close> of \<^verbatim>\<open>deps\<close> under the label (input, output, digest,
  selector of \<open>d'\<close>); and when the walk from \<open>d'\<close> has not handed it over, the call has
  made the \<^verbatim>\<open>AddLink\<close> of that link. The storage keeps its part (\<open>linkstore_ok\<close>,
  \<open>walk_sound\<close>), and the keys of \<^verbatim>\<open>deps\<close> are objects allocated before the call.
\<close>

theorem Query_cross_links:
  assumes "linkstore_ok (backend c)" and "walk_sound (backend c)"
    and "dps \<noteq> []" and "\<forall>d \<in> set dps. addr (fst d) < allocated w"
    and "Query E c dps inp dgst out w = (Inr keys, w')"
    and "d \<in> set dps" and "x \<in> discovered c inp dgst out (store w) (ids w') d"
    and "d' \<in> set dps"
  shows "linked_from c inp dgst out (store w') (ids w') d' x \<and>
         (x \<notin> discovered c inp dgst out (store w) (ids w') d' \<longrightarrow>
            link_added c inp dgst out (new_calls w w') (ids w') d' x)"
proof -
  note ok = assms(1)
  from Query_success[OF assms(5,3)] obtain allDeps allRes w1 entries w3 entries' where
    qw: "Query_walk E c inp dgst out dps [] [] w = (Inr (allDeps, allRes), w1)" and
    m: "mapRange E allRes w1 = (entries, w1\<lparr>ranged := Suc (ranged w1)\<rparr>)" and
    l: "Query_link E c inp dgst out entries allDeps (w1\<lparr>ranged := Suc (ranged w1)\<rparr>) = (None, w3)" and
    m': "mapRange E allRes w3 = (entries', w')" by blast
  let ?w2 = "w1\<lparr>ranged := Suc (ranged w1)\<rparr>"
  have "keys_ok c [] w" "deps_ok c inp dgst out [] w" "\<forall>e \<in> set []. set (snd e) \<subseteq> fst ` set []"
    by (simp_all add: keys_ok_def deps_ok_def)
  from Query_walk_facts[OF qw this(1,2) assms(4) this(3)] have
    p: "preserved w w1" and ko: "keys_ok c allRes w1" and dok: "deps_ok c inp dgst out allDeps w1"
    and fd: "map fst allDeps = dps" and cov: "\<forall>e \<in> set allDeps. set (snd e) \<subseteq> fst ` set allRes"
    by simp_all
  from p have st1: "store w1 = store w" by (simp add: preserved_def)
  from m have se: "set entries = set allRes" by (auto simp: mapRange_def pick_order_set)
  from ko se have h1: "\<forall>en \<in> set entries. ids ?w2 (addr (snd en), self c) = Some (fst en)"
    by (simp add: keys_ok_def)
  from dok have h2: "\<forall>e \<in> set allDeps. ids ?w2 (addr (fst (fst e)), self c) \<noteq> None"
    by (simp add: deps_ok_def)
  from Query_link_facts[OF ok l h1 h2] have
    lk: "linking (backend c) ?w2 w3" and
    miss: "\<forall>en \<in> set entries. \<forall>e \<in> set allDeps. fst en \<notin> set (snd e) \<longrightarrow>
            linked_from c inp dgst out (store w3) (ids w3) (fst e) (fst en) \<and>
            link_added c inp dgst out (new_calls ?w2 w3) (ids w3) (fst e) (fst en)" by simp_all
  from m' have w': "ids w' = ids w3" "store w' = store w3" "calls w' = calls w3"
    by (auto simp: mapRange_def)
  from p have p1: "prefix (calls w) (calls ?w2)" by (simp add: preserved_def)
  from lk have p2: "prefix (calls ?w2) (calls w3)" by (simp add: linking_def)
  from w' have p3: "prefix (calls w3) (calls w')" by simp
  from p1 p2 have p13: "prefix (calls w) (calls w3)" by (rule prefix_order.trans)
  from new_calls_later(1)[OF p1 p2] new_calls_later(2)[OF p13 p3]
  have nc: "set (new_calls ?w2 w3) \<subseteq> set (new_calls w w')" by blast
  from lk have i3: "ids w3 = ids w1" by (simp add: linking_def)
  from assms(6) fd obtain res where dr: "(d, res) \<in> set allDeps" by force
  from assms(8) fd obtain res' where dr': "(d', res') \<in> set allDeps" by force
  from dok dr have "set res = discovered c inp dgst out (store w1) (ids w1) d"
    by (auto simp: deps_ok_def)
  with assms(7) w' i3 st1 have "x \<in> set res" by simp
  moreover from cov dr have "set (snd (d, res)) \<subseteq> fst ` set allRes" by blast
  ultimately have "x \<in> fst ` set allRes" by auto
  with se obtain en where en: "en \<in> set entries" "fst en = x" by auto
  from dok dr' have sr': "set res' = discovered c inp dgst out (store w1) (ids w1) d'"
    by (auto simp: deps_ok_def)
  from sr' w' i3 st1 have sr'': "set res' = discovered c inp dgst out (store w) (ids w') d'" by simp
  have "linked_from c inp dgst out (store w3) (ids w3) d' x \<and>
        (x \<notin> set res' \<longrightarrow> link_added c inp dgst out (new_calls ?w2 w3) (ids w3) d' x)"
  proof (cases "x \<in> set res'")
    case True
    with sr' have "x \<in> discovered c inp dgst out (store w1) (ids w1) d'" by simp
    with assms(2) have "linked_from c inp dgst out (store w1) (ids w1) d' x"
      by (auto simp: discovered_def linked_from_def walk_sound_def split: option.splits)
    then have "linked_from c inp dgst out (store ?w2) (ids ?w2) d' x" by simp
    with lk have "linked_from c inp dgst out (store w3) (ids w3) d' x" by (rule linked_from_linking)
    with True show ?thesis by simp
  next
    case False
    with miss en dr' show ?thesis by force
  qed
  then have a: "linked_from c inp dgst out (store w') (ids w') d' x"
    and b: "x \<notin> set res' \<longrightarrow> link_added c inp dgst out (new_calls ?w2 w3) (ids w') d' x"
    using w' by simp_all
  from b nc have "x \<notin> set res' \<longrightarrow> link_added c inp dgst out (new_calls w w') (ids w') d' x"
    by (auto simp: link_added_def split: option.splits)
  with a sr'' show ?thesis by simp
qed


lemma mem_walk_sound: "walk_sound (backend mem_manager)"
  by (auto simp: walk_sound_def mem_manager_def mem_backend_def)

theorem Query_cross_links_witness:
  "linkstore_ok (backend mem_manager) \<and> walk_sound (backend mem_manager) \<and>
   fst (Query env0 mem_manager [(key_a, ''s1''), (key_b, ''s1'')] 0 ''sha256:opC'' 0 (world0 mem_c)) =
     Inr [CacheKey 100 ''X'' [] ''sha256:opC'' 0] \<and>
   ''X'' \<in> discovered mem_manager 0 ''sha256:opC'' 0 (store (world0 mem_c))
     (ids (snd (Query env0 mem_manager [(key_a, ''s1''), (key_b, ''s1'')] 0 ''sha256:opC'' 0 (world0 mem_c))))
     (key_a, ''s1'') \<and>
   ''X'' \<notin> discovered mem_manager 0 ''sha256:opC'' 0 (store (world0 mem_c))
     (ids (snd (Query env0 mem_manager [(key_a, ''s1''), (key_b, ''s1'')] 0 ''sha256:opC'' 0 (world0 mem_c))))
     (key_b, ''s1'') \<and>
   linked_from mem_manager 0 ''sha256:opC'' 0
     (store (snd (Query env0 mem_manager [(key_a, ''s1''), (key_b, ''s1'')] 0 ''sha256:opC'' 0 (world0 mem_c))))
     (ids (snd (Query env0 mem_manager [(key_a, ''s1''), (key_b, ''s1'')] 0 ''sha256:opC'' 0 (world0 mem_c))))
     (key_b, ''s1'') ''X'' \<and>
   link_added mem_manager 0 ''sha256:opC'' 0
     (new_calls (world0 mem_c)
        (snd (Query env0 mem_manager [(key_a, ''s1''), (key_b, ''s1'')] 0 ''sha256:opC'' 0 (world0 mem_c))))
     (ids (snd (Query env0 mem_manager [(key_a, ''s1''), (key_b, ''s1'')] 0 ''sha256:opC'' 0 (world0 mem_c))))
     (key_b, ''s1'') ''X''"
proof -
  let ?dps = "[(key_a, ''s1''), (key_b, ''s1'')]"
  let ?Q = "Query env0 mem_manager ?dps 0 ''sha256:opC'' 0 (world0 mem_c)"
  have r: "fst ?Q = Inr [CacheKey 100 ''X'' [] ''sha256:opC'' 0]" by code_simp
  then have q: "?Q = (Inr [CacheKey 100 ''X'' [] ''sha256:opC'' 0], snd ?Q)" by (metis prod.collapse)
  have ia: "ids (snd ?Q) (addr key_a, self mem_manager) = Some ''a''" by code_simp
  have ib: "ids (snd ?Q) (addr key_b, self mem_manager) = Some ''b''" by code_simp
  have wa: "fst (WalkLinks (backend mem_manager) (store (world0 mem_c)) ''a''
     \<lparr>Input = 0, Output = 0, Digest = ''sha256:opC'', Selector = ''s1''\<rparr>) = [''X'']" by code_simp
  have wb: "fst (WalkLinks (backend mem_manager) (store (world0 mem_c)) ''b''
     \<lparr>Input = 0, Output = 0, Digest = ''sha256:opC'', Selector = ''s1''\<rparr>) = []" by code_simp
  have da: "''X'' \<in> discovered mem_manager 0 ''sha256:opC'' 0 (store (world0 mem_c)) (ids (snd ?Q)) (key_a, ''s1'')"
    by (simp add: discovered_def ia wa)
  have db: "''X'' \<notin> discovered mem_manager 0 ''sha256:opC'' 0 (store (world0 mem_c)) (ids (snd ?Q)) (key_b, ''s1'')"
    by (simp add: discovered_def ib wb)
  have ne: "?dps \<noteq> []" by simp
  have al: "\<forall>d \<in> set ?dps. addr (fst d) < allocated (world0 mem_c)"
    by (simp add: key_a_def key_b_def world0_def)
  have m: "(key_a, ''s1'') \<in> set ?dps" "(key_b, ''s1'') \<in> set ?dps" by simp_all
  from Query_cross_links[OF mem_linkstore_ok mem_walk_sound ne al q m(1) da m(2)]
    mem_linkstore_ok mem_walk_sound r da db
  show ?thesis by simp
qed

section \<open>Records\<close>

lemma Release_step:
  assumes "release_ok (backend c) (results c)" and "backend_Release c r w = (e, w')"
  shows "ids w' = ids w" and "calls w' = calls w @ [CallRelease r e]"
    and "present c (store w') x = present c (store w) x"
    and "set (fst (WalkResults (backend c) (store w') i)) \<subseteq> set (fst (WalkResults (backend c) (store w) i))"
    and "e = None \<Longrightarrow> released_gone (backend c) (store w') r"
proof -
  obtain s' where s: "Release (backend c) (store w) r = (s', e)" and w': "w' = w\<lparr>store := s', calls := calls w @ [CallRelease r e]\<rparr>"
    using assms(2) by (auto simp: backend_Release_def split: prod.splits)
  from w' show "ids w' = ids w" "calls w' = calls w @ [CallRelease r e]" by simp_all
  from w' have st: "store w' = s'" by simp
  from assms(1) s have
    a: "\<And>x. results_Exists (results c) s' x = results_Exists (results c) (store w) x" and
    b: "\<And>i. set (fst (WalkResults (backend c) s' i)) \<subseteq> set (fst (WalkResults (backend c) (store w) i))" and
    d: "\<And>i cr. e = None \<Longrightarrow> cr \<in> set (fst (WalkResults (backend c) s' i)) \<Longrightarrow> result_ID cr \<noteq> r"
    unfolding release_ok_def by blast+
  from a st show "present c (store w') x = present c (store w) x" by (simp add: present_def)
  from b st show "set (fst (WalkResults (backend c) (store w') i)) \<subseteq> set (fst (WalkResults (backend c) (store w) i))"
    by simp
  from d st show "e = None \<Longrightarrow> released_gone (backend c) (store w') r"
    by (simp add: released_gone_def)
qed

lemma released_gone_later:
  assumes "released_gone B s x"
    and "\<forall>i. set (fst (WalkResults B s' i)) \<subseteq> set (fst (WalkResults B s i))"
  shows "released_gone B s' x"
  using assms unfolding released_gone_def by blast

lemma Release_calls_Cons: "Release_calls (r # rs) (e # es) = CallRelease (result_ID r) e # Release_calls rs es"
  by (simp add: Release_calls_def)

lemma Release_calls_has:
  assumes "r \<in> set rs" and "length es = length rs"
  shows "\<exists>e. CallRelease (result_ID r) e \<in> set (Release_calls rs es)"
proof -
  from assms(2)[symmetric] assms(1) obtain e where "(r, e) \<in> set (zip rs es)"
    by (rule in_set_impl_in_set_zip1)
  then have "(\<lambda>(r, e). CallRelease (result_ID r) e) (r, e) \<in> set (Release_calls rs es)"
    unfolding Release_calls_def set_map by (rule imageI)
  then show ?thesis by auto
qed

lemma not_failed_None: "\<not> Release_failed (CallRelease x e) \<Longrightarrow> e = None"
  by (cases e) simp_all

text \<open>
  The callback over the results of the walk: the records of the results whose artifact
  is there, a \<^verbatim>\<open>Release\<close> call for each of the others, and after every \<^verbatim>\<open>Release\<close> that
  returned no error no association with the released result is left.
\<close>

lemma Records_callback_facts:
  assumes "release_ok (backend c) (results c)"
    and "Records_callback c ck crs outs w = (outs', w')"
  shows "outs' = outs @ map (record_of c ck) (filter (present c (store w)) crs) \<and>
         ids w' = ids w \<and>
         (\<forall>x. present c (store w') x = present c (store w) x) \<and>
         (\<forall>i. set (fst (WalkResults (backend c) (store w') i)) \<subseteq>
               set (fst (WalkResults (backend c) (store w) i))) \<and>
         (\<exists>es. length es = length (filter (\<lambda>r. \<not> present c (store w) r) crs) \<and>
            calls w' = calls w @ Release_calls (filter (\<lambda>r. \<not> present c (store w) r) crs) es \<and>
            (\<forall>x. CallRelease x None \<in> set (Release_calls (filter (\<lambda>r. \<not> present c (store w) r) crs) es)
               \<longrightarrow> released_gone (backend c) (store w') x))"
  using assms(2)
proof (induction crs arbitrary: outs w)
  case Nil
  then show ?case by (simp add: Release_calls_def)
next
  case (Cons r rs)
  note ok = assms(1)
  show ?case
  proof (cases "present c (store w) r")
    case True
    with Cons.prems have "Records_callback c ck rs (outs @ [record_of c ck r]) w = (outs', w')"
      by (simp add: present_def record_of_def)
    from Cons.IH[OF this] True show ?thesis by simp
  next
    case False
    obtain e w1 where rel: "backend_Release c (result_ID r) w = (e, w1)"
      by (cases "backend_Release c (result_ID r) w")
    note st = Release_step[OF ok rel]
    from Cons.prems False rel have "Records_callback c ck rs outs w1 = (outs', w')"
      by (simp add: present_def)
    note ih = Cons.IH[OF this]
    have pres: "present c (store w1) = present c (store w)" using st(3) by (intro ext)
    let ?stale = "filter (\<lambda>r. \<not> present c (store w) r) rs"
    from ih pres obtain es where
      len: "length es = length ?stale" and
      cl1: "calls w' = calls w1 @ Release_calls ?stale es" and
      g1: "\<forall>x. CallRelease x None \<in> set (Release_calls ?stale es)
               \<longrightarrow> released_gone (backend c) (store w') x"
      by auto
    from ih have o: "outs' = outs @ map (record_of c ck) (filter (present c (store w)) (r # rs))"
      using False pres by simp
    from ih st(1) have i: "ids w' = ids w" by simp
    from ih pres have p: "\<forall>x. present c (store w') x = present c (store w) x" by simp
    from ih have sub1: "\<forall>i. set (fst (WalkResults (backend c) (store w') i)) \<subseteq>
               set (fst (WalkResults (backend c) (store w1) i))" by blast
    with st(4) have sub: "\<forall>i. set (fst (WalkResults (backend c) (store w') i)) \<subseteq>
               set (fst (WalkResults (backend c) (store w) i))" by blast
    have fl: "filter (\<lambda>r. \<not> present c (store w) r) (r # rs) = r # ?stale" using False by simp
    have len': "length (e # es) = length (filter (\<lambda>r. \<not> present c (store w) r) (r # rs))"
      using len fl by simp
    have cl: "calls w' = calls w @ Release_calls (filter (\<lambda>r. \<not> present c (store w) r) (r # rs)) (e # es)"
      using cl1 st(2) fl by (simp add: Release_calls_Cons)
    have gone: "\<forall>x. CallRelease x None \<in> set (Release_calls (filter (\<lambda>r. \<not> present c (store w) r) (r # rs)) (e # es))
               \<longrightarrow> released_gone (backend c) (store w') x"
    proof (intro allI impI)
      fix x
      assume "CallRelease x None \<in> set (Release_calls (filter (\<lambda>r. \<not> present c (store w) r) (r # rs)) (e # es))"
      then have "(x = result_ID r \<and> e = None) \<or> CallRelease x None \<in> set (Release_calls ?stale es)"
        unfolding fl Release_calls_Cons by auto
      then show "released_gone (backend c) (store w') x"
      proof
        assume "x = result_ID r \<and> e = None"
        with st(5) have "released_gone (backend c) (store w1) x" by simp
        then show ?thesis using sub1 by (rule released_gone_later)
      next
        assume "CallRelease x None \<in> set (Release_calls ?stale es)"
        with g1 show ?thesis by blast
      qed
    qed
    from len' cl gone have "\<exists>es. length es = length (filter (\<lambda>r. \<not> present c (store w) r) (r # rs)) \<and>
            calls w' = calls w @ Release_calls (filter (\<lambda>r. \<not> present c (store w) r) (r # rs)) es \<and>
            (\<forall>x. CallRelease x None \<in> set (Release_calls (filter (\<lambda>r. \<not> present c (store w) r) (r # rs)) es)
               \<longrightarrow> released_gone (backend c) (store w') x)" by blast
    with o i p sub show ?thesis by blast
  qed
qed

text \<open>
  Claim C6, as stated, fails: \<^verbatim>\<open>Records\<close> drops the error of \<^verbatim>\<open>Release\<close>. With a storage
  whose \<^verbatim>\<open>Release\<close> fails, the call succeeds, and the association of \<open>r1\<close>, whose artifact
  is absent, is still under the key afterwards.
\<close>

theorem Records_stale_survives:
  "fst (Records env0 stuck_manager key_a (world0 mem_stale)) = Inr [CacheRecord ''r2'' 0 key_a 6] \<and>
   ids (snd (Records env0 stuck_manager key_a (world0 mem_stale))) (addr key_a, self stuck_manager) = Some ''a'' \<and>
   CacheResult ''r1'' 5 \<in> set (fst (WalkResults (backend stuck_manager)
          (store (snd (Records env0 stuck_manager key_a (world0 mem_stale)))) ''a'')) \<and>
   \<not> present stuck_manager (store (snd (Records env0 stuck_manager key_a (world0 mem_stale))))
       (CacheResult ''r1'' 5)"
  by code_simp

text \<open>
  Claim C6, amended. A \<^verbatim>\<open>Records\<close> call that succeeds returns, in the order of the walk,
  the records of exactly those results under the identifier of the key whose artifact
  is in the result storage; for every other result of the walk it calls \<^verbatim>\<open>Release\<close>, and
  these are its only calls after the walk. After every \<^verbatim>\<open>Release\<close> call of the run that
  returned no error, no association with the released result is left; so, when no
  \<^verbatim>\<open>Release\<close> call of the run has failed, every association left under the identifier has
  its artifact. The calls of the run are \<open>new_calls w w'\<close>; nothing is asked of the calls
  that the storage is not asked to make. The storage keeps its part (\<open>release_ok\<close>).
\<close>

theorem Records_self_healing:
  assumes "Records E c ck w = (Inr outs, w')"
    and "release_ok (backend c) (results c)"
  shows "\<exists>kid crs cs es.
           ids w' (addr ck, self c) = Some kid \<and>
           WalkResults (backend c) (store w) kid = (crs, None) \<and>
           outs = map (record_of c ck) (filter (present c (store w)) crs) \<and>
           length es = length (filter (\<lambda>r. \<not> present c (store w) r) crs) \<and>
           new_calls w w' = cs @ CallWalkResults kid #
                        Release_calls (filter (\<lambda>r. \<not> present c (store w) r) crs) es \<and>
           list_all is_WalkLinks cs \<and>
           (\<forall>x. CallRelease x None \<in> set (new_calls w w') \<longrightarrow>
                  released_gone (backend c) (store w') x) \<and>
           (list_all (\<lambda>cl. \<not> Release_failed cl) (new_calls w w') \<longrightarrow>
              (\<forall>r \<in> set (fst (WalkResults (backend c) (store w') kid)). present c (store w') r))"
proof -
  note ok = assms(2)
  obtain kid w1 where g: "getID E c ck w = (kid, w1)" by (cases "getID E c ck w")
  obtain crs err w2 where wr: "backend_WalkResults c kid w1 = ((crs, err), w2)"
    by (cases "backend_WalkResults c kid w1") auto
  obtain outs' w3 where cb: "Records_callback c ck crs [] w2 = (outs', w3)"
    by (cases "Records_callback c ck crs [] w2")
  from assms(1) g wr cb have err: "err = None" and o: "outs' = outs" and w3: "w3 = w'"
    by (cases err; simp add: Records_def)+
  note s = getID_step[OF g]
  from s(1) obtain cs where cs: "calls w1 = calls w @ cs" "list_all is_WalkLinks cs"
    and st1: "store w1 = store w" by (auto simp: resolved_more_def)
  from wr have w2: "w2 = w1\<lparr>calls := calls w1 @ [CallWalkResults kid]\<rparr>"
    and walk: "WalkResults (backend c) (store w1) kid = (crs, err)"
    by (auto simp: backend_WalkResults_def)
  from w2 st1 have st2: "store w2 = store w" by simp
  let ?stale = "filter (\<lambda>r. \<not> present c (store w) r) crs"
  note f = Records_callback_facts[OF ok cb, unfolded st2 o w3]
  from f obtain es where
    len: "length es = length ?stale" and
    cl2: "calls w' = calls w2 @ Release_calls ?stale es" and
    gone: "\<forall>x. CallRelease x None \<in> set (Release_calls ?stale es)
               \<longrightarrow> released_gone (backend c) (store w') x"
    by blast
  from f s(2) w2 have ik: "ids w' (addr ck, self c) = Some kid" by simp
  from cl2 w2 cs have "calls w' = calls w @ (cs @ CallWalkResults kid # Release_calls ?stale es)"
    by simp
  then have nc: "new_calls w w' = cs @ CallWalkResults kid # Release_calls ?stale es"
    by (simp add: new_calls_def)
  have wl: "\<not> is_WalkLinks (CallRelease x e)" for x e by simp
  have inrel: "cl \<in> set (Release_calls ?stale es)"
    if "cl \<in> set (new_calls w w')" and "cl = CallRelease x e" for cl x e
  proof -
    from that nc have "cl \<in> set cs \<or> cl \<in> set (Release_calls ?stale es)" by auto
    moreover have "cl \<notin> set cs"
    proof
      assume "cl \<in> set cs"
      with cs(2) have "is_WalkLinks cl" by (simp add: list_all_iff)
      with that(2) show False by simp
    qed
    ultimately show ?thesis by blast
  qed
  have gone': "\<forall>x. CallRelease x None \<in> set (new_calls w w') \<longrightarrow>
                  released_gone (backend c) (store w') x"
    using inrel gone by blast
  have surv: "\<forall>r \<in> set (fst (WalkResults (backend c) (store w') kid)). present c (store w') r"
    if nf: "list_all (\<lambda>cl. \<not> Release_failed cl) (new_calls w w')"
  proof
    fix r assume r: "r \<in> set (fst (WalkResults (backend c) (store w') kid))"
    from f have "set (fst (WalkResults (backend c) (store w') kid)) \<subseteq>
        set (fst (WalkResults (backend c) (store w) kid))" by blast
    with r walk st1 have rc: "r \<in> set crs" by auto
    show "present c (store w') r"
    proof (rule ccontr)
      assume "\<not> present c (store w') r"
      with f have "\<not> present c (store w) r" by simp
      with rc have "r \<in> set ?stale" by simp
      from Release_calls_has[OF this len] obtain e where
        e: "CallRelease (result_ID r) e \<in> set (Release_calls ?stale es)" ..
      with nc have in_new: "CallRelease (result_ID r) e \<in> set (new_calls w w')" by simp
      with nf have "\<not> Release_failed (CallRelease (result_ID r) e)" by (simp add: list_all_iff)
      then have "e = None" by (rule not_failed_None)
      with e gone have "released_gone (backend c) (store w') (result_ID r)" by blast
      with r show False unfolding released_gone_def by blast
    qed
  qed
  from f have o': "outs = map (record_of c ck) (filter (present c (store w)) crs)" by simp
  from walk st1 err have walk': "WalkResults (backend c) (store w) kid = (crs, None)" by simp
  show ?thesis
  proof (intro exI conjI)
    show "ids w' (addr ck, self c) = Some kid" by (rule ik)
    show "WalkResults (backend c) (store w) kid = (crs, None)" by (rule walk')
    show "outs = map (record_of c ck) (filter (present c (store w)) crs)" by (rule o')
    show "length es = length ?stale" by (rule len)
    show "new_calls w w' = cs @ CallWalkResults kid # Release_calls ?stale es" by (rule nc)
    show "list_all is_WalkLinks cs" by (rule cs(2))
    show "\<forall>x. CallRelease x None \<in> set (new_calls w w') \<longrightarrow>
                  released_gone (backend c) (store w') x" by (rule gone')
    show "list_all (\<lambda>cl. \<not> Release_failed cl) (new_calls w w') \<longrightarrow>
              (\<forall>r \<in> set (fst (WalkResults (backend c) (store w') kid)). present c (store w') r)"
      using surv by blast
  qed
qed

lemma picky_release_ok: "release_ok (backend picky_manager) (results picky_manager)"
  by (auto simp: release_ok_def picky_manager_def mem_manager_def mem_backend_def
      mem_results_storage_def split: if_splits)

theorem Records_self_healing_witness:
  "release_ok (backend picky_manager) (results picky_manager) \<and>
   snd (Release (backend picky_manager) mem_stale ''r9'') \<noteq> None \<and>
   fst (WalkResults (backend picky_manager) (store (world0 mem_stale)) ''a'') =
     [CacheResult ''r1'' 5, CacheResult ''r2'' 6] \<and>
   fst (Records env0 picky_manager key_a (world0 mem_stale)) = Inr [CacheRecord ''r2'' 0 key_a 6] \<and>
   new_calls (world0 mem_stale) (snd (Records env0 picky_manager key_a (world0 mem_stale))) =
     [CallWalkResults ''a'', CallRelease ''r1'' None] \<and>
   list_all (\<lambda>cl. \<not> Release_failed cl)
     (new_calls (world0 mem_stale) (snd (Records env0 picky_manager key_a (world0 mem_stale)))) \<and>
   fst (WalkResults (backend picky_manager)
          (store (snd (Records env0 picky_manager key_a (world0 mem_stale)))) ''a'') =
     [CacheResult ''r2'' 6] \<and>
   released_gone (backend picky_manager)
     (store (snd (Records env0 picky_manager key_a (world0 mem_stale)))) ''r1'' \<and>
   (\<exists>kid. ids (snd (Records env0 picky_manager key_a (world0 mem_stale))) (addr key_a, self picky_manager) = Some kid \<and>
      (\<forall>r \<in> set (fst (WalkResults (backend picky_manager)
                          (store (snd (Records env0 picky_manager key_a (world0 mem_stale)))) kid)).
         present picky_manager (store (snd (Records env0 picky_manager key_a (world0 mem_stale)))) r))"
proof -
  let ?R = "Records env0 picky_manager key_a (world0 mem_stale)"
  have r: "fst ?R = Inr [CacheRecord ''r2'' 0 key_a 6]" by code_simp
  then have q: "?R = (Inr [CacheRecord ''r2'' 0 key_a 6], snd ?R)" by (metis prod.collapse)
  have p: "snd (Release (backend picky_manager) mem_stale ''r9'') \<noteq> None"
    by (simp add: picky_manager_def)
  have b: "fst (WalkResults (backend picky_manager) (store (world0 mem_stale)) ''a'') =
     [CacheResult ''r1'' 5, CacheResult ''r2'' 6]" by code_simp
  have a: "fst (WalkResults (backend picky_manager) (store (snd ?R)) ''a'') = [CacheResult ''r2'' 6]"
    by code_simp
  have c1: "calls (snd ?R) = [CallWalkResults ''a'', CallRelease ''r1'' None]" by code_simp
  have c0: "calls (world0 mem_stale) = []" by (simp add: world0_def)
  have n: "new_calls (world0 mem_stale) (snd ?R) = [CallWalkResults ''a'', CallRelease ''r1'' None]"
    by (simp add: new_calls_def c0 c1)
  have nf: "list_all (\<lambda>cl. \<not> Release_failed cl) (new_calls (world0 mem_stale) (snd ?R))"
    unfolding n by simp
  have i: "CallRelease ''r1'' None \<in> set (new_calls (world0 mem_stale) (snd ?R))"
    unfolding n by simp
  from Records_self_healing[OF q picky_release_ok] obtain kid where
    k: "ids (snd ?R) (addr key_a, self picky_manager) = Some kid" and
    g: "\<forall>x. CallRelease x None \<in> set (new_calls (world0 mem_stale) (snd ?R)) \<longrightarrow>
          released_gone (backend picky_manager) (store (snd ?R)) x" and
    h: "list_all (\<lambda>cl. \<not> Release_failed cl) (new_calls (world0 mem_stale) (snd ?R)) \<longrightarrow>
          (\<forall>r \<in> set (fst (WalkResults (backend picky_manager) (store (snd ?R)) kid)).
             present picky_manager (store (snd ?R)) r)"
    by blast
  from g i have g': "released_gone (backend picky_manager) (store (snd ?R)) ''r1''" by blast
  from h nf have h': "\<forall>r \<in> set (fst (WalkResults (backend picky_manager) (store (snd ?R)) kid)).
             present picky_manager (store (snd ?R)) r" by blast
  from k h' have e: "\<exists>kid. ids (snd ?R) (addr key_a, self picky_manager) = Some kid \<and>
      (\<forall>r \<in> set (fst (WalkResults (backend picky_manager) (store (snd ?R)) kid)).
         present picky_manager (store (snd ?R)) r)" by blast
  show ?thesis
    by (intro conjI) (rule picky_release_ok p b r n nf a g' e)+
qed

section \<open>filterResults and LoadWithParents\<close>

text \<open>The error of \<^verbatim>\<open>filterResults\<close> is \<^verbatim>\<open>nil\<close>, whatever the storage does.\<close>

lemma filterResults_never_fails:
  "snd (fst (filterResults E c ck m visited w)) = None"
  "snd (fst (filterResults_slots E c dss rs m visited w)) = None"
  "snd (fst (filterResults_keys E c ds rs m visited w)) = None"
proof (induction E c ck m visited w and E c dss rs m visited w and E c ds rs m visited w
    rule: filterResults_filterResults_slots_filterResults_keys.induct)
  case (1 E c ck m visited w)
  obtain i w1 where g: "getID E c ck w = (i, w1)" by (cases "getID E c ck w")
  show ?case
  proof (cases "i \<in> set visited")
    case True
    with g show ?thesis by (simp add: filterResults.simps)
  next
    case False
    obtain crs werr w2 where wr: "backend_WalkResults c i w1 = ((crs, werr), w2)"
      by (cases "backend_WalkResults c i w1") auto
    obtain rs m' where cb: "filterResults_callback i ck crs [] m = (rs, m')"
      by (cases "filterResults_callback i ck crs [] m")
    from 1[OF g[symmetric] False wr[symmetric] refl cb[symmetric]] g False wr cb
    show ?thesis by (simp add: filterResults.simps)
  qed
next
  case (2 E c rs m visited w)
  show ?case by simp
next
  case (3 E c keys rest rs m visited w)
  obtain rs' e m' v' w' where k: "filterResults_keys E c keys rs m visited w = ((rs', e), m', v', w')"
    by (cases "filterResults_keys E c keys rs m visited w") auto
  from 3(1) k have e: "e = None" by simp
  from 3(2)[OF k[symmetric] refl e refl refl] k e show ?case by simp
next
  case (4 E c rs m visited w)
  show ?case by simp
next
  case (5 E c k sel rest rs m visited w)
  obtain res e m' v' w' where f: "filterResults E c k m visited w = ((res, e), m', v', w')"
    by (cases "filterResults E c k m visited w") auto
  from 5(1) f have e: "e = None" by simp
  from 5(2)[OF f[symmetric] refl e refl refl] f e show ?case by simp
qed

text \<open>
  Claim C2 does not hold of the code. When \<^verbatim>\<open>WalkResults\<close> fails after handing over the
  result \<open>r1\<close>, \<^verbatim>\<open>filterResults\<close> releases the handle 7 it has just matched, keeps it in
  \<^verbatim>\<open>results\<close> and returns it with a \<^verbatim>\<open>nil\<close> error; \<^verbatim>\<open>LoadWithParents\<close> then returns the
  released handle to its caller, with no error. When \<^verbatim>\<open>WalkResults\<close> fails at once, the
  handle is released as a leftover and \<^verbatim>\<open>LoadWithParents\<close> returns an empty result, again
  with no error.
\<close>

theorem LoadWithParents_failed_walk:
  "fst (LoadWithParents env0 (failing_manager 1) rec_a (world0 mem_stale)) =
     Inr [LoadedResult 7 (CacheResult ''r1'' 5) key_a] \<and>
   released (snd (LoadWithParents env0 (failing_manager 1) rec_a (world0 mem_stale))) = [7] \<and>
   fst (LoadWithParents env0 (failing_manager 0) rec_a (world0 mem_stale)) = Inr [] \<and>
   released (snd (LoadWithParents env0 (failing_manager 0) rec_a (world0 mem_stale))) = [7]"
  by code_simp

end
